theory Spec2Isabelle
  imports Complex_Main
begin

section \<open>Strings\<close>

text \<open>
  JavaScript strings are modelled as \<^typ>\<open>string\<close>. Input text is taken to be ASCII; the
  few non-ASCII characters of the fixed messages of the source are written as their UTF-8 bytes.
  \<open>toLowerCase\<close> below is the lower-casing of ASCII text, which the analyzers apply to
  senders, subjects and host names. The string distance does not rest on it: there the
  platform's \<open>String.prototype.toLowerCase\<close> is a parameter.
\<close>

definition to_lower_char :: "char \<Rightarrow> char" where
  "to_lower_char c =
     (let n = (of_char c :: nat) in if 65 \<le> n \<and> n \<le> 90 then char_of (n + 32) else c)"

definition toLowerCase :: "string \<Rightarrow> string" where
  "toLowerCase s = map to_lower_char s"

text \<open>The character class \<open>[a-z0-9]\<close>.\<close>

definition is_lower_alnum :: "char \<Rightarrow> bool" where
  "is_lower_alnum c =
     (let n = (of_char c :: nat) in (97 \<le> n \<and> n \<le> 122) \<or> (48 \<le> n \<and> n \<le> 57))"

text \<open>The regular-expression class \<open>\s\<close>, on ASCII.\<close>

definition is_space :: "char \<Rightarrow> bool" where
  "is_space c = (of_char c \<in> {9, 10, 11, 12, 13, 32 :: nat})"

text \<open>The regular-expression class \<open>\w\<close>.\<close>

definition is_word :: "char \<Rightarrow> bool" where
  "is_word c =
     (let n = (of_char c :: nat) in
        (97 \<le> n \<and> n \<le> 122) \<or> (65 \<le> n \<and> n \<le> 90) \<or> (48 \<le> n \<and> n \<le> 57) \<or> n = 95)"

text \<open>\<open>s.startsWith(p)\<close>, \<open>s.endsWith(p)\<close> and \<open>s.includes(p)\<close>.\<close>

definition startsWith :: "string \<Rightarrow> string \<Rightarrow> bool" where
  "startsWith s p = (take (length p) s = p)"

definition endsWith :: "string \<Rightarrow> string \<Rightarrow> bool" where
  "endsWith s p = (length p \<le> length s \<and> drop (length s - length p) s = p)"

fun str_includes :: "string \<Rightarrow> string \<Rightarrow> bool" where
  "str_includes [] p = (p = [])"
| "str_includes (c # cs) p = (startsWith (c # cs) p \<or> str_includes cs p)"

text \<open>\<open>xs.join(sep)\<close> on an array of strings.\<close>

fun join :: "string \<Rightarrow> string list \<Rightarrow> string" where
  "join sep [] = []"
| "join sep [x] = x"
| "join sep (x # y # ys) = x @ sep @ join sep (y # ys)"

text \<open>Decimal rendering of a non-negative integer, as a template literal does.\<close>

fun show_nat :: "nat \<Rightarrow> string" where
  "show_nat n =
     (if n < 10 then [char_of (48 + n)] else show_nat (n div 10) @ [char_of (48 + n mod 10)])"

declare show_nat.simps [simp del]

section \<open>String distance (\<open>levenshtein\<close> in background.js)\<close>

text \<open>
  A write \<open>arr[j] = v\<close> to a JavaScript array: in range it overwrites, at index
  \<open>arr.length\<close> it appends. The source never writes beyond the length.
\<close>

definition arr_put :: "'a list \<Rightarrow> nat \<Rightarrow> 'a \<Rightarrow> 'a list" where
  "arr_put xs j v = (if j < length xs then xs[j := v] else xs @ [v])"

text \<open>First loop: \<open>matrix[i] = [i]\<close> for \<open>i = 0 .. b.length\<close>.\<close>

definition lev_init_rows :: "nat \<Rightarrow> nat list list" where
  "lev_init_rows m = fold (\<lambda>i M. arr_put M i [i]) [0..<Suc m] []"

text \<open>Second loop: \<open>matrix[0][j] = j\<close> for \<open>j = 0 .. a.length\<close>.\<close>

definition lev_init_first :: "nat \<Rightarrow> nat list list \<Rightarrow> nat list list" where
  "lev_init_first n M = fold (\<lambda>j M. M[0 := arr_put (M ! 0) j j]) [0..<Suc n] M"

text \<open>The body of the inner loop: the value stored in \<open>matrix[i][j]\<close>.\<close>

definition lev_cell :: "'a list \<Rightarrow> 'a list \<Rightarrow> nat list list \<Rightarrow> nat \<Rightarrow> nat \<Rightarrow> nat" where
  "lev_cell a b M i j =
     (if b ! (i - 1) = a ! (j - 1) then M ! (i - 1) ! (j - 1)
      else min (M ! (i - 1) ! (j - 1) + 1) (min (M ! i ! (j - 1) + 1) (M ! (i - 1) ! j + 1)))"

definition lev_row :: "'a list \<Rightarrow> 'a list \<Rightarrow> nat \<Rightarrow> nat list list \<Rightarrow> nat list list" where
  "lev_row a b i M =
     fold (\<lambda>j M. M[i := arr_put (M ! i) j (lev_cell a b M i j)]) [1..<Suc (length a)] M"

definition lev_fill :: "'a list \<Rightarrow> 'a list \<Rightarrow> nat list list \<Rightarrow> nat list list" where
  "lev_fill a b M = fold (lev_row a b) [1..<Suc (length b)] M"

text \<open>The part of \<open>levenshtein\<close> after the lower-casing, on characters of any type.\<close>

definition lev_matrix :: "'a list \<Rightarrow> 'a list \<Rightarrow> nat" where
  "lev_matrix a b =
     lev_fill a b (lev_init_first (length a) (lev_init_rows (length b))) ! length b ! length a"

text \<open>
  \<open>lc\<close> stands for \<open>String.prototype.toLowerCase\<close>, a function of the platform: it also
  lower-cases letters beyond ASCII, and it can change the length of a string. The strings are
  lists of characters of any type (UTF-16 code units in the source). The test for an empty
  argument comes before the lower-casing, as in the source.
\<close>

definition levenshtein :: "('c list \<Rightarrow> 'c list) \<Rightarrow> 'c list \<Rightarrow> 'c list \<Rightarrow> nat" where
  "levenshtein lc a b =
     (if a = [] \<or> b = [] then (if a \<noteq> [] \<or> b \<noteq> [] then max (length a) (length b) else 0)
      else lev_matrix (lc a) (lc b))"


subsection \<open>Edit distance, as the specification words it\<close>

text \<open>
  One single-character insertion, deletion or substitution, anywhere in the string
  (\<open>ctx\<close> moves the place of the edit to the right).
\<close>

inductive edit1 :: "'a list \<Rightarrow> 'a list \<Rightarrow> bool" where
  ins: "edit1 xs (c # xs)"
| del: "edit1 (c # xs) xs"
| sub: "edit1 (c # xs) (d # xs)"
| ctx: "edit1 xs ys \<Longrightarrow> edit1 (c # xs) (c # ys)"

text \<open>\<open>edits n a b\<close>: \<open>n\<close> such edits, one after the other, transform \<open>a\<close> into \<open>b\<close>.\<close>

inductive edits :: "nat \<Rightarrow> 'a list \<Rightarrow> 'a list \<Rightarrow> bool" where
  none: "edits 0 a a"
| step: "edits n a b \<Longrightarrow> edit1 b c \<Longrightarrow> edits (Suc n) a c"

code_pred edit1 .

code_pred edits .

subsection \<open>Auxiliary definitions for the proof\<close>

text \<open>The recurrence that the matrix tabulates.\<close>

fun levf :: "'a list \<Rightarrow> 'a list \<Rightarrow> nat" where
  "levf [] ys = length ys"
| "levf (x # xs) [] = Suc (length xs)"
| "levf (x # xs) (y # ys) =
     min (levf xs ys + (if x = y then 0 else 1))
       (min (levf xs (y # ys) + 1) (levf (x # xs) ys + 1))"

text \<open>The value of the cell \<open>matrix[i][j]\<close>, and the state of the matrix after row \<open>k\<close>.\<close>

definition lev_pre :: "'a list \<Rightarrow> 'a list \<Rightarrow> nat \<Rightarrow> nat \<Rightarrow> nat" where
  "lev_pre a b i j = levf (rev (take i b)) (rev (take j a))"

definition lev_inv :: "'a list \<Rightarrow> 'a list \<Rightarrow> nat \<Rightarrow> nat list list \<Rightarrow> bool" where
  "lev_inv a b k M \<longleftrightarrow> length M = Suc (length b) \<and>
     (\<forall>i \<le> k. M ! i = map (lev_pre a b i) [0..<Suc (length a)]) \<and>
     (\<forall>i. k < i \<and> i \<le> length b \<longrightarrow> M ! i = [i])"

section \<open>Link deception analysis (\<open>analyzeUrlDeception\<close>, \<open>quickScanLinks\<close> in content.js)\<close>

datatype js_error = TypeError | SyntaxError

datatype level = Safe | Warning | Danger | Neutral

record link =
  href :: string
  linkText :: string

record finding =
  index :: nat
  reason :: string
  indicators :: "string list"

record link_finding = finding +
  findingHref :: string
  findingText :: string

record deception =
  suspiciousLinks :: "link_finding list"
  threatLevel :: level
  analyzed :: nat

definition shorteners :: "string list" where
  "shorteners = [''bit.ly'', ''tinyurl.com'', ''goo.gl'', ''ow.ly'', ''t.co'', ''short.url'',
                 ''is.gd'', ''buff.ly'', ''tiny.one'']"

definition knownBad :: "string list" where
  "knownBad = [''malware.example'', ''badware.test'', ''phishingsite.test'']"

definition authPatterns :: "string list" where
  "authPatterns = [''login-'', ''secure-'', ''verify-'', ''account-'', ''signin-'']"

definition ind_mismatch :: string where
  "ind_mismatch = ''text-URL mismatch (visible plaintext differs from href)''"

definition ind_shortener :: string where
  "ind_shortener = ''URL shortener detected''"

definition ind_malicious :: string where
  "ind_malicious = ''known malicious domain''"

definition ind_auth :: string where
  "ind_auth = ''suspicious auth-related subdomain pattern''"

definition ind_http :: string where
  "ind_http = ''uses http (not https)''"

subsection \<open>The pattern \<open>urlLikeRegex\<close>\<close>

text \<open>
  \<open>/\bhttps?:\/\/[^\s/$.?#].[^\s]*\b|(?:www\.)[^\s/$.?#].[^\s]*\b/gi\<close>: only the first
  match is used by the source. The functions below follow the backtracking matcher.
\<close>

definition is_line_terminator :: "char \<Rightarrow> bool" where
  "is_line_terminator c = (of_char c \<in> {10, 13 :: nat})"

text \<open>The class \<open>[^\s/$.?#]\<close>.\<close>

definition url_lead_char :: "char \<Rightarrow> bool" where
  "url_lead_char c = (\<not> is_space c \<and> c \<notin> set ''/$.?#'')"

text \<open>
  \<open>[^\s]*\b\<close> after the character \<open>prev\<close>: the longest run of non-space characters that
  ends at a word boundary.
\<close>

fun url_tail :: "char \<Rightarrow> string \<Rightarrow> string option" where
  "url_tail prev [] = (if is_word prev then Some [] else None)"
| "url_tail prev (c # cs) =
     (if \<not> is_space c then
        (case url_tail c cs of
           Some m \<Rightarrow> Some (c # m)
         | None \<Rightarrow> if is_word prev \<noteq> is_word c then Some [] else None)
      else if is_word prev then Some [] else None)"

text \<open>\<open>[^\s/$.?#].[^\s]*\b\<close> at the start of the text.\<close>

fun url_body :: "string \<Rightarrow> string option" where
  "url_body (c1 # c2 # rest) =
     (if url_lead_char c1 \<and> \<not> is_line_terminator c2
      then map_option (\<lambda>m. c1 # c2 # m) (url_tail c2 rest) else None)"
| "url_body _ = None"

text \<open>A literal (given in lower case) at the start of the text, ignoring case.\<close>

definition match_ci :: "string \<Rightarrow> string \<Rightarrow> string option" where
  "match_ci p s =
     (if length p \<le> length s \<and> toLowerCase (take (length p) s) = p
      then Some (take (length p) s) else None)"

definition match_http :: "string \<Rightarrow> string option" where
  "match_http s =
     (case match_ci ''https://'' s of
        Some p \<Rightarrow> map_option ((@) p) (url_body (drop 8 s))
      | None \<Rightarrow>
          (case match_ci ''http://'' s of
             Some p \<Rightarrow> map_option ((@) p) (url_body (drop 7 s))
           | None \<Rightarrow> None))"

definition match_www :: "string \<Rightarrow> string option" where
  "match_www s =
     (case match_ci ''www.'' s of
        Some p \<Rightarrow> map_option ((@) p) (url_body (drop 4 s))
      | None \<Rightarrow> None)"

text \<open>
  The leftmost match, scanning from the left; \<open>prev\<close> is the character before the current
  position, for the leading \<open>\b\<close> of the first alternative.
\<close>

fun first_url_from :: "char option \<Rightarrow> string \<Rightarrow> string option" where
  "first_url_from prev [] = None"
| "first_url_from prev (c # cs) =
     (case (if (case prev of None \<Rightarrow> True | Some p \<Rightarrow> \<not> is_word p)
            then match_http (c # cs) else None) of
        Some m \<Rightarrow> Some m
      | None \<Rightarrow>
          (case match_www (c # cs) of
             Some m \<Rightarrow> Some m
           | None \<Rightarrow> first_url_from (Some c) cs))"

definition first_url_like :: "string \<Rightarrow> string option" where
  "first_url_like t = first_url_from None t"

subsection \<open>The per-link checks\<close>

text \<open>
  The platform's URL parser is not part of the source: \<open>U s\<close> stands for
  \<open>new URL(s).hostname\<close>, with \<open>Inl\<close> where the constructor throws.
\<close>

type_synonym url_parser = "string \<Rightarrow> js_error + string"

text \<open>\<open>try { hrefHostname = new URL(href).hostname.toLowerCase(); } catch { }\<close>\<close>

definition hostname_or_empty :: "url_parser \<Rightarrow> string \<Rightarrow> string" where
  "hostname_or_empty U s = (case U s of Inl e \<Rightarrow> [] | Inr h \<Rightarrow> toLowerCase h)"

definition text_mismatch :: "url_parser \<Rightarrow> string \<Rightarrow> string \<Rightarrow> bool" where
  "text_mismatch U hrefHostname t =
     (case first_url_like t of
        None \<Rightarrow> False
      | Some visible \<Rightarrow>
          (let visibleHost =
                 hostname_or_empty U (if startsWith visible ''http'' then visible
                                      else ''http://'' @ visible)
           in visibleHost \<noteq> [] \<and> hrefHostname \<noteq> [] \<and> visibleHost \<noteq> hrefHostname))"

definition link_indicators :: "url_parser \<Rightarrow> link \<Rightarrow> string list" where
  "link_indicators U l =
     (let hrefHostname = hostname_or_empty U (href l) in
        (if text_mismatch U hrefHostname (linkText l) then [ind_mismatch] else [])
      @ (if hrefHostname \<noteq> [] \<and> (\<exists>s \<in> set shorteners. str_includes hrefHostname s)
         then [ind_shortener] else [])
      @ (if hrefHostname \<noteq> [] \<and> (\<exists>b \<in> set knownBad. str_includes hrefHostname b)
         then [ind_malicious] else [])
      @ (if \<exists>p \<in> set authPatterns. str_includes hrefHostname p then [ind_auth] else [])
      @ (if href l \<noteq> [] \<and> startsWith (href l) ''http://'' then [ind_http] else []))"

text \<open>The end of the loop body: what link \<open>i\<close> pushes onto \<open>suspiciousLinks\<close>.\<close>

definition link_step :: "url_parser \<Rightarrow> nat \<Rightarrow> link \<Rightarrow> link_finding list" where
  "link_step U i l =
     (let inds = link_indicators U l in
        if inds \<noteq> []
        then [\<lparr>index = i, reason = join ''; '' inds, indicators = inds,
               findingHref = href l, findingText = linkText l\<rparr>]
        else [])"

text \<open>The loop over \<open>links\<close>: \<open>i\<close> is the loop counter, \<open>acc\<close> the array \<open>suspiciousLinks\<close>.\<close>

fun links_loop :: "url_parser \<Rightarrow> nat \<Rightarrow> link list \<Rightarrow> link_finding list \<Rightarrow> link_finding list" where
  "links_loop U i [] acc = acc"
| "links_loop U i (l # ls) acc = links_loop U (Suc i) ls (acc @ link_step U i l)"

text \<open>The three indicators that escalate a single finding.\<close>

definition strong_link :: "string list \<Rightarrow> bool" where
  "strong_link inds =
     (ind_malicious \<in> set inds \<or> ind_shortener \<in> set inds \<or> ind_mismatch \<in> set inds)"

definition link_level :: "link_finding list \<Rightarrow> level" where
  "link_level fs =
     (if length fs \<ge> 2 then Danger
      else if length fs = 1 then
        (let first = fs ! 0 in if strong_link (indicators first) then Danger else Warning)
      else Safe)"

definition analyzeUrlDeception :: "url_parser \<Rightarrow> link list \<Rightarrow> deception" where
  "analyzeUrlDeception U ls =
     (let fs = links_loop U 0 ls [] in
        \<lparr>suspiciousLinks = fs, threatLevel = link_level fs, analyzed = length ls\<rparr>)"

subsection \<open>\<open>quickScanLinks\<close> on the anchors of the page\<close>

record link_summary =
  summaryHref :: string
  summaryReason :: string
  summaryIndicators :: "string list"

record link_verdict =
  linkLevel :: level
  linkDetail :: string
  links :: "link_summary list"

definition trim :: "string \<Rightarrow> string" where
  "trim s = rev (dropWhile is_space (rev (dropWhile is_space s)))"

text \<open>The check mark of the fixed message, U+2705.\<close>

definition check_mark :: string where
  "check_mark = [CHR 0xE2, CHR 0x9C, CHR 0x85]"

text \<open>
  \<open>anchors\<close> are the \<open>href\<close> and \<open>textContent\<close> of the page's \<open>a[href]\<close> elements, in
  document order.
\<close>

definition linksToAnalyze :: "link list \<Rightarrow> link list" where
  "linksToAnalyze anchors =
     map (\<lambda>a. \<lparr>href = href a, linkText = trim (linkText a)\<rparr>) (take 200 anchors)"

definition quickScanLinks :: "url_parser \<Rightarrow> link list \<Rightarrow> link_verdict" where
  "quickScanLinks U anchors =
     (let d = analyzeUrlDeception U (linksToAnalyze anchors);
          sus = map (\<lambda>s. \<lparr>summaryHref = findingHref s, summaryReason = reason s,
                           summaryIndicators = indicators s\<rparr>) (suspiciousLinks d);
          lvl = (if threatLevel d = Danger then Danger
                 else if threatLevel d = Warning then Warning else Safe);
          detail =
            (if lvl = Safe then check_mark @ '' No suspicious links detected.''
             else if sus \<noteq> [] then
               show_nat (length sus) @ '' suspicious link(s): ''
                 @ join '', '' (map summaryReason (take 3 sus))
             else ''Potentially suspicious links found.'')
      in \<lparr>linkLevel = lvl, linkDetail = detail, links = sus\<rparr>)"


section \<open>Sender and subject analysis (\<open>analyzeInboxLocally\<close> in background.js)\<close>

record thread =
  sender :: string
  subject :: string
  snippet :: string
  timestamp :: "string option"
  rawTimestamp :: "string option"
  unread :: bool
  starred :: bool

record thread_finding = finding +
  findingSender :: string
  findingSubject :: string

record inbox_verdict =
  inboxLevel :: level
  inboxDetail :: string
  findings :: "thread_finding list"

definition knownBrands :: "string list" where
  "knownBrands = [''microsoft'', ''google'', ''amazon'', ''paypal'', ''apple'', ''facebook'',
                  ''bank'', ''chase'', ''bankofamerica'', ''stripe'', ''github'']"

definition suspiciousTLDs :: "string list" where
  "suspiciousTLDs = [''.tk'', ''.ru'', ''.ml'', ''.ga'', ''.cf'', ''.biz'', ''.info'']"

text \<open>The class \<open>[^\s>]\<close>.\<close>

definition domain_char :: "char \<Rightarrow> bool" where
  "domain_char c = (\<not> is_space c \<and> c \<noteq> CHR ''>'')"

text \<open>
  \<open>sender.match(/@([^\s>]+)/)\<close>: the group of the leftmost match, lower-cased, or the empty
  string when there is no match.
\<close>

fun sender_domain :: "string \<Rightarrow> string" where
  "sender_domain [] = []"
| "sender_domain (c # cs) =
     (if c = CHR ''@'' \<and> takeWhile domain_char cs \<noteq> []
      then toLowerCase (takeWhile domain_char cs) else sender_domain cs)"

text \<open>
  \<open>s.split(/[^a-z0-9]+/).filter(Boolean)\<close>: the maximal runs of \<open>[a-z0-9]\<close>; \<open>cur\<close> is the
  run being read.
\<close>

fun split_tokens :: "string \<Rightarrow> string \<Rightarrow> string list" where
  "split_tokens cur [] = (if cur = [] then [] else [cur])"
| "split_tokens cur (c # cs) =
     (if is_lower_alnum c then split_tokens (cur @ [c]) cs
      else (if cur = [] then [] else [cur]) @ split_tokens [] cs)"

definition tag_tld :: string where
  "tag_tld = ''suspicious-tld''"

definition tag_typo :: string where
  "tag_typo = ''typosquatting''"

text \<open>The sign U+2248 of the reason text.\<close>

definition approx_sign :: string where
  "approx_sign = [CHR 0xE2, CHR 0x89, CHR 0x88]"

definition dquote :: string where
  "dquote = [CHR 0x22]"

text \<open>Heuristic 1: the first suspicious top-level domain that ends the sender's domain.\<close>

definition tld_check :: "nat \<Rightarrow> thread \<Rightarrow> string \<Rightarrow> thread_finding list" where
  "tld_check i t domain =
     (if domain \<noteq> [] then
        (case find (\<lambda>tld. endsWith domain tld) suspiciousTLDs of
           None \<Rightarrow> []
         | Some tld \<Rightarrow>
             [\<lparr>index = i, reason = ''Sender domain uses suspicious TLD ('' @ tld @ '')'',
               indicators = [tag_tld], findingSender = sender t, findingSubject = subject t\<rparr>])
      else [])"

text \<open>
  The bound \<open>Math.max(1, Math.floor(brand.length * 0.2))\<close>. The double \<open>0.2\<close> is slightly
  above one fifth, and for the lengths of the brand list (4 to 13) the floating-point product
  has the floor \<open>brand.length div 5\<close>.
\<close>

definition typo_bound :: "string \<Rightarrow> nat" where
  "typo_bound brand = max 1 (length brand div 5)"

text \<open>
  Heuristic 2, the body of the loop over the brands for one token. The token is made of
  \<open>[a-z0-9]\<close> and the brand is ASCII, so the lower-casing inside the distance is the one of
  ASCII text.
\<close>

definition typo_check :: "nat \<Rightarrow> thread \<Rightarrow> string \<Rightarrow> string \<Rightarrow> thread_finding list" where
  "typo_check i t token brand =
     (if length brand < 4 \<or> length token < 4 then []
      else
        (let dist = levenshtein toLowerCase (filter is_lower_alnum token) brand in
           if dist > 0 \<and> dist \<le> typo_bound brand then
             [\<lparr>index = i,
               reason = ''Possible typosquatting: '' @ dquote @ token @ dquote @ '' '' @ approx_sign
                        @ '' '' @ dquote @ brand @ dquote @ '' (distance '' @ show_nat dist @ '')'',
               indicators = [tag_typo, ''similar-to-'' @ brand],
               findingSender = sender t, findingSubject = subject t\<rparr>]
           else []))"

text \<open>The body of the loop over the threads: what thread \<open>i\<close> pushes onto \<open>findings\<close>.\<close>

definition thread_findings :: "nat \<Rightarrow> thread \<Rightarrow> thread_finding list" where
  "thread_findings i t =
     (let sender = toLowerCase (sender t);
          subject = toLowerCase (subject t);
          domain = sender_domain sender;
          tokens = split_tokens [] (sender @ '' '' @ subject)
      in tld_check i t domain
         @ concat (map (\<lambda>token. concat (map (typo_check i t token) knownBrands)) tokens))"

fun threads_loop :: "nat \<Rightarrow> thread list \<Rightarrow> thread_finding list \<Rightarrow> thread_finding list" where
  "threads_loop i [] acc = acc"
| "threads_loop i (t # ts) acc = threads_loop (Suc i) ts (acc @ thread_findings i t)"

text \<open>The signs U+1F6A8 and U+26A0 U+FE0F of the detail texts.\<close>

definition alarm_sign :: string where
  "alarm_sign = [CHR 0xF0, CHR 0x9F, CHR 0x9A, CHR 0xA8]"

definition warning_sign :: string where
  "warning_sign = [CHR 0xE2, CHR 0x9A, CHR 0xA0, CHR 0xEF, CHR 0xB8, CHR 0x8F]"

definition analyzeInboxLocally :: "thread list \<Rightarrow> inbox_verdict" where
  "analyzeInboxLocally threads =
     (let fs = threads_loop 0 threads [] in
        if length fs = 0 then
          \<lparr>inboxLevel = Safe, inboxDetail = ''Checks out! '' @ check_mark, findings = []\<rparr>
        else
          (let strong = (\<exists>f \<in> set fs. tag_tld \<in> set (indicators f) \<or> tag_typo \<in> set (indicators f));
               lvl = (if strong then Danger else Warning);
               detail =
                 (if lvl = Danger
                  then alarm_sign @ '' '' @ show_nat (length fs) @ '' suspicious item(s) detected''
                  else warning_sign @ '' '' @ show_nat (length fs)
                       @ '' potentially suspicious item(s) detected'')
           in \<lparr>inboxLevel = lvl, inboxDetail = detail, findings = fs\<rparr>))"


section \<open>Response normalisation (\<open>parseAIResponse\<close> in prompt-templates.js)\<close>

text \<open>
  The values that \<open>JSON.parse\<close> returns. A number is kept as its \<open>ToString\<close> text, which
  identifies it (up to the sign of zero). The members of an object are kept in the order of
  the text.
\<close>

datatype json =
    JNull
  | JBool bool
  | JNum string
  | JStr string
  | JArr "json list"
  | JObj "(string \<times> json) list"

text \<open>
  The platform's \<open>JSON.parse\<close> is not part of the source: \<open>J s\<close> stands for
  \<open>JSON.parse(s)\<close>, with \<open>Inl\<close> where it throws.
\<close>

type_synonym json_parser = "string \<Rightarrow> js_error + json"

text \<open>
  \<open>response.match(/\{[\s\S]*\}/)\<close>: from the first opening brace to the last closing brace
  after it; no match when there is none.
\<close>

definition json_block :: "string \<Rightarrow> string option" where
  "json_block response =
     (let t = dropWhile (\<lambda>c. c \<noteq> CHR ''{'') response in
        if CHR ''}'' \<in> set t then Some (rev (dropWhile (\<lambda>c. c \<noteq> CHR ''}'') (rev t))) else None)"

text \<open>The body of the \<open>try\<close> block.\<close>

definition parse_attempt :: "json_parser \<Rightarrow> string \<Rightarrow> js_error + json" where
  "parse_attempt J response =
     (case json_block response of Some m \<Rightarrow> J m | None \<Rightarrow> J response)"

text \<open>The object that the \<open>catch\<close> block returns.\<close>

definition parse_failure :: "string \<Rightarrow> json" where
  "parse_failure response =
     JObj [(''error'', JBool True), (''message'', JStr ''Could not parse AI response''),
           (''raw'', JStr response)]"

definition parseAIResponse :: "json_parser \<Rightarrow> string \<Rightarrow> js_error + json" where
  "parseAIResponse J response =
     (case parse_attempt J response of
        Inl e \<Rightarrow> Inr (parse_failure response)
      | Inr v \<Rightarrow> Inr v)"

section \<open>The inbox threat scan (\<open>SCAN_INBOX_THREATS\<close> in background.js)\<close>

text \<open>A property read \<open>v.k\<close> on a parsed value; \<open>None\<close> is \<open>undefined\<close>.\<close>

fun js_get :: "json \<Rightarrow> string \<Rightarrow> json option" where
  "js_get (JObj ms) k = map_of (rev ms) k"
| "js_get (JArr xs) k = (if k = ''length'' then Some (JNum (show_nat (length xs))) else None)"
| "js_get (JStr s) k = (if k = ''length'' then Some (JNum (show_nat (length s))) else None)"
| "js_get v k = None"

text \<open>Truthiness of a value or of \<open>undefined\<close>.\<close>

fun truthy :: "json option \<Rightarrow> bool" where
  "truthy None = False"
| "truthy (Some JNull) = False"
| "truthy (Some (JBool b)) = b"
| "truthy (Some (JNum n)) = (n \<noteq> ''0'' \<and> n \<noteq> ''NaN'')"
| "truthy (Some (JStr s)) = (s \<noteq> [])"
| "truthy (Some (JArr xs)) = True"
| "truthy (Some (JObj ms)) = True"

text \<open>\<open>a || b\<close> and \<open>a && b\<close>.\<close>

definition js_or :: "json option \<Rightarrow> json option \<Rightarrow> json option" where
  "js_or a b = (if truthy a then a else b)"

definition js_and :: "json option \<Rightarrow> json option \<Rightarrow> json option" where
  "js_and a b = (if truthy a then b else a)"

text \<open>The text of a number or the characters of a string, as a template literal renders them.\<close>

fun template_text :: "json option \<Rightarrow> string" where
  "template_text (Some (JNum n)) = n"
| "template_text (Some (JStr s)) = s"
| "template_text (Some (JBool b)) = (if b then ''true'' else ''false'')"
| "template_text (Some (JObj ms)) = ''[object Object]''"
| "template_text (Some JNull) = ''null''"
| "template_text None = ''undefined''"
| "template_text (Some (JArr xs)) =
     join '','' (map (\<lambda>x. case x of JNull \<Rightarrow> [] | _ \<Rightarrow> template_text (Some x)) xs)"

text \<open>The outcome of an awaited call.\<close>

datatype 'a outcome = Rejects string | Resolves 'a

text \<open>
  What the scan receives from its collaborators: the identifier of the tab (\<open>None\<close> when
  \<open>msg.tabId\<close> and the lookup give no usable one), the threads that the content script
  returns, and the value that \<open>sendPrompt\<close> resolves to. The prompt text is not modelled: the
  outcome of the call is an input here.
\<close>

record scan_env =
  tab :: "nat option"
  inbox :: "thread list outcome"
  reply :: "json outcome"

datatype scan_result =
    NeutralResult string
  | LocalResult inbox_verdict
  | RemoteResult level "json option" "json option"

text \<open>
  The normalisation of the parsed reply, the last \<open>try\<close> block of the handler. Nothing in
  it throws on a value that \<open>JSON.parse\<close> returns, so its \<open>catch\<close> has no branch here.
\<close>

definition remote_result :: "json \<Rightarrow> scan_result" where
  "remote_result parsed =
     (let lvl = js_or (js_get parsed ''threat_level'')
                  (js_or (js_get parsed ''threatLevel'')
                     (js_or (js_get parsed ''level'') (Some (JStr ''safe''))));
          sus = js_get parsed ''suspicious_items'';
          detail =
            js_or (js_get parsed ''overall_assessment'')
              (if truthy (js_and sus (case sus of None \<Rightarrow> None | Some v \<Rightarrow> js_get v ''length''))
               then Some (JStr (''Found ''
                      @ template_text (case sus of None \<Rightarrow> None | Some v \<Rightarrow> js_get v ''length'')
                      @ '' suspicious item(s)''))
               else Some (JStr (''Checks out! '' @ check_mark)));
          items = js_or sus (js_or (js_get parsed ''items'') (Some (JArr [])))
      in RemoteResult
           (if lvl = Some (JStr ''danger'') then Danger
            else if lvl = Some (JStr ''warning'') then Warning else Safe)
           detail items)"

text \<open>The name that starts \<open>String(err)\<close> for a thrown error.\<close>

fun error_name :: "js_error \<Rightarrow> string" where
  "error_name TypeError = ''TypeError''"
| "error_name SyntaxError = ''SyntaxError''"

text \<open>
  The handler. \<open>F\<close> stands for \<open>filterThreadsByDateAndLimit\<close>, which reads the clock.
\<close>

definition scanInboxThreats ::
    "json_parser \<Rightarrow> (thread list \<Rightarrow> thread list) \<Rightarrow> scan_env \<Rightarrow> scan_result" where
  "scanInboxThreats J F env =
     (case tab env of
        None \<Rightarrow> NeutralResult ''Open Gmail inbox to analyze''
      | Some tabId \<Rightarrow>
          (case inbox env of
             Rejects err \<Rightarrow> NeutralResult (''Inbox scan failed: '' @ err)
           | Resolves threads \<Rightarrow>
               if threads = [] then NeutralResult ''No recent threads found to analyze''
               else
                 (let filtered = F threads;
                      llmResp = (case reply env of Rejects aiErr \<Rightarrow> JNull | Resolves v \<Rightarrow> v);
                      parsed =
                        (case llmResp of
                           JStr s \<Rightarrow> if trim s \<noteq> [] then parseAIResponse J s else Inr JNull
                         | _ \<Rightarrow> Inr JNull)
                  in case parsed of
                       Inl e \<Rightarrow> NeutralResult (''Inbox scan failed: '' @ error_name e)
                     | Inr p \<Rightarrow>
                         if \<not> truthy (Some p) \<or> truthy (js_get p ''error'')
                         then LocalResult (analyzeInboxLocally filtered)
                         else remote_result p)))"


section \<open>Readings of the platform functions for the examples\<close>

text \<open>
  The theorems below hold for every URL parser and every JSON parser. Their examples need
  concrete ones. \<open>url_hostname\<close> reads absolute \<open>http\<close> and \<open>https\<close> URLs whose authority is a
  host name of letters, digits, dots and hyphens, and rejects every other string. It is
  enough for the examples: there it gives what the platform's parser gives.
\<close>

definition host_char :: "char \<Rightarrow> bool" where
  "host_char c = (is_lower_alnum (to_lower_char c) \<or> c = CHR ''.'' \<or> c = CHR ''-'')"

definition url_hostname :: url_parser where
  "url_hostname s =
     (let rest = (if match_ci ''https://'' s \<noteq> None then Some (drop 8 s)
                  else if match_ci ''http://'' s \<noteq> None then Some (drop 7 s) else None)
      in case rest of
           None \<Rightarrow> Inl TypeError
         | Some r \<Rightarrow>
             (let authority = takeWhile (\<lambda>c. c \<notin> set ''/?#'') r in
                if authority \<noteq> [] \<and> list_all host_char authority
                then Inr (toLowerCase authority) else Inl TypeError))"

text \<open>
  \<open>json_parse\<close> reads the JSON grammar with two restrictions: a number is an integer literal
  of at most 15 digits, and a string has no \<open>\u\<close> escape. The first argument of
  \<open>json_value\<close> bounds the depth of the recursion; the length of the text is enough.
\<close>

definition is_json_ws :: "char \<Rightarrow> bool" where
  "is_json_ws c = (of_char c \<in> {9, 10, 13, 32 :: nat})"

definition skip_ws :: "string \<Rightarrow> string" where
  "skip_ws s = dropWhile is_json_ws s"

definition is_digit :: "char \<Rightarrow> bool" where
  "is_digit c = (let n = (of_char c :: nat) in 48 \<le> n \<and> n \<le> 57)"

definition unescape :: "char \<Rightarrow> char option" where
  "unescape e =
     (if e = CHR 0x22 \<or> e = CHR 0x5C \<or> e = CHR ''/'' then Some e
      else if e = CHR ''b'' then Some (CHR 0x08)
      else if e = CHR ''f'' then Some (CHR 0x0C)
      else if e = CHR ''n'' then Some (CHR 0x0A)
      else if e = CHR ''r'' then Some (CHR 0x0D)
      else if e = CHR ''t'' then Some (CHR 0x09)
      else None)"

text \<open>The characters of a string after its opening quote, and the text after its closing quote.\<close>

fun json_string :: "string \<Rightarrow> (string \<times> string) option" where
  "json_string [] = None"
| "json_string [c] = (if c = CHR 0x22 then Some ([], []) else None)"
| "json_string (c # e # r) =
     (if c = CHR 0x22 then Some ([], e # r)
      else if c = CHR 0x5C then
        (case unescape e of
           None \<Rightarrow> None
         | Some x \<Rightarrow> map_option (\<lambda>(s, r'). (x # s, r')) (json_string r))
      else if (of_char c :: nat) < 32 then None
      else map_option (\<lambda>(s, r'). (c # s, r')) (json_string (e # r)))"

definition json_number :: "string \<Rightarrow> (json \<times> string) option" where
  "json_number s =
     (let neg = (s \<noteq> [] \<and> hd s = CHR ''-'');
          t = (if neg then tl s else s);
          ds = takeWhile is_digit t;
          r = dropWhile is_digit t
      in if ds = [] \<or> length ds > 15 \<or> (length ds > 1 \<and> hd ds = CHR ''0'')
            \<or> (r \<noteq> [] \<and> hd r \<in> set ''.eE'')
         then None
         else Some (JNum (if neg \<and> ds \<noteq> ''0'' then CHR ''-'' # ds else ds), r))"

fun json_value :: "nat \<Rightarrow> string \<Rightarrow> (json \<times> string) option"
  and json_elements :: "nat \<Rightarrow> string \<Rightarrow> (json list \<times> string) option"
  and json_members :: "nat \<Rightarrow> string \<Rightarrow> ((string \<times> json) list \<times> string) option" where
  "json_value 0 s = None"
| "json_value (Suc n) s =
     (case skip_ws s of
        [] \<Rightarrow> None
      | c # r \<Rightarrow>
          if c = CHR ''{'' then
            (case skip_ws r of
               [] \<Rightarrow> None
             | d # r' \<Rightarrow>
                 if d = CHR ''}'' then Some (JObj [], r')
                 else map_option (\<lambda>(ms, t). (JObj ms, t)) (json_members n r))
          else if c = CHR ''['' then
            (case skip_ws r of
               [] \<Rightarrow> None
             | d # r' \<Rightarrow>
                 if d = CHR '']'' then Some (JArr [], r')
                 else map_option (\<lambda>(xs, t). (JArr xs, t)) (json_elements n r))
          else if c = CHR 0x22 then map_option (\<lambda>(x, t). (JStr x, t)) (json_string r)
          else if startsWith (c # r) ''true'' then Some (JBool True, drop 4 (c # r))
          else if startsWith (c # r) ''false'' then Some (JBool False, drop 5 (c # r))
          else if startsWith (c # r) ''null'' then Some (JNull, drop 4 (c # r))
          else json_number (c # r))"
| "json_elements 0 s = None"
| "json_elements (Suc n) s =
     (case json_value n s of
        None \<Rightarrow> None
      | Some (v, t) \<Rightarrow>
          (case skip_ws t of
             [] \<Rightarrow> None
           | c # r \<Rightarrow>
               if c = CHR '','' then map_option (\<lambda>(vs, u). (v # vs, u)) (json_elements n r)
               else if c = CHR '']'' then Some ([v], r)
               else None))"
| "json_members 0 s = None"
| "json_members (Suc n) s =
     (case skip_ws s of
        [] \<Rightarrow> None
      | q # r \<Rightarrow>
          if q \<noteq> CHR 0x22 then None
          else
            (case json_string r of
               None \<Rightarrow> None
             | Some (k, t) \<Rightarrow>
                 (case skip_ws t of
                    [] \<Rightarrow> None
                  | c # r' \<Rightarrow>
                      if c \<noteq> CHR '':'' then None
                      else
                        (case json_value n r' of
                           None \<Rightarrow> None
                         | Some (v, u) \<Rightarrow>
                             (case skip_ws u of
                                [] \<Rightarrow> None
                              | d # w \<Rightarrow>
                                  if d = CHR '','' then
                                    map_option (\<lambda>(ms, x). ((k, v) # ms, x)) (json_members n w)
                                  else if d = CHR ''}'' then Some ([(k, v)], w)
                                  else None)))))"

definition json_parse :: json_parser where
  "json_parse s =
     (case json_value (Suc (length s)) s of
        None \<Rightarrow> Inl SyntaxError
      | Some (v, r) \<Rightarrow> if skip_ws r = [] then Inr v else Inl SyntaxError)"


text \<open>
  A reading of \<open>String.prototype.toLowerCase\<close> on UTF-16 code units, given as numbers, for
  the examples: the letters A to Z, and the capital I with a dot above (U+0130), whose lower
  case is the two code units U+0069 U+0307.
\<close>

definition lower_unit :: "nat \<Rightarrow> nat list" where
  "lower_unit u =
     (if u = 0x130 then [0x69, 0x307] else if 65 \<le> u \<and> u \<le> 90 then [u + 32] else [u])"

definition lower_units :: "nat list \<Rightarrow> nat list" where
  "lower_units us = concat (map lower_unit us)"

text \<open>A thread of the inbox with the given sender and subject, for the examples.\<close>

definition thread_of :: "string \<Rightarrow> string \<Rightarrow> thread" where
  "thread_of s j =
     \<lparr>sender = s, subject = j, snippet = [], timestamp = None, rawTimestamp = None,
      unread = False, starred = False\<rparr>"

text \<open>A link with the given destination and visible text, for the examples.\<close>

definition link_of :: "string \<Rightarrow> string \<Rightarrow> link" where
  "link_of h t = \<lparr>href = h, linkText = t\<rparr>"

text \<open>The text \<open>{"threat_level":"danger"}\<close>, for the examples.\<close>

definition danger_block :: string where
  "danger_block = ''{'' @ dquote @ ''threat_level'' @ dquote @ '':'' @ dquote @ ''danger''
                  @ dquote @ ''}''"

section \<open>The string distance is the edit distance\<close>

lemma levf_Nil2 [simp]: "levf xs [] = length xs"
  by (cases xs) simp_all

lemma levf_ins2: "levf xs (y # ys) \<le> levf xs ys + 1"
  by (cases xs) simp_all

lemma levf_ins1: "levf (x # xs) ys \<le> levf xs ys + 1"
  by (cases ys) simp_all

lemma levf_del2: "levf xs ys \<le> levf xs (y # ys) + 1"
proof (induction xs)
  case Nil
  show ?case by simp
next
  case (Cons x xs)
  have "levf (x # xs) ys \<le> levf xs ys + 1" by (rule levf_ins1)
  with Cons show ?case by (simp add: min_def)
qed

lemma levf_sym: "levf xs ys = levf ys xs"
  by (induction xs ys rule: levf.induct) (simp_all add: min.commute eq_commute)

lemma levf_del1: "levf xs ys \<le> levf (x # xs) ys + 1"
  using levf_del2 [of ys xs x] by (simp add: levf_sym)

lemma levf_Cons: "levf (x # xs) (y # ys) =
    (if x = y then levf xs ys else 1 + min (levf xs ys) (min (levf xs (y # ys)) (levf (x # xs) ys)))"
  using levf_del2 [of xs ys y] levf_del1 [of xs ys x] by (simp add: min_def)

lemma levf_refl [simp]: "levf xs xs = 0"
  by (induction xs) (simp_all add: levf_Cons del: levf.simps)

lemma levf_edit1: "edit1 b c \<Longrightarrow> levf a c \<le> levf a b + 1"
proof (induction b c arbitrary: a rule: edit1.induct)
  case (ins xs c)
  show ?case by (rule levf_ins2)
next
  case (del c xs)
  show ?case by (rule levf_del2)
next
  case (sub c xs d)
  show ?case
  proof (induction a)
    case Nil
    show ?case by simp
  next
    case (Cons x a)
    have "levf (x # a) (d # xs) \<le> levf a (d # xs) + 1" by (rule levf_ins1)
    with Cons show ?case by (simp add: min_def)
  qed
next
  case (ctx xs ys c)
  show ?case
  proof (induction a)
    case Nil
    from ctx.IH [of "[]"] show ?case by simp
  next
    case (Cons x a)
    from ctx.IH [of a] ctx.IH [of "x # a"] Cons show ?case by (simp add: min_def)
  qed
qed

lemma edits_lower: "edits n a b \<Longrightarrow> levf a b \<le> n"
proof (induction rule: edits.induct)
  case (none a)
  show ?case by simp
next
  case (step n a b c)
  from levf_edit1 [OF step.hyps(2), of a] step.IH show ?case by simp
qed

lemma edits_ctx: "edits n a b \<Longrightarrow> edits n (c # a) (c # b)"
  by (induction rule: edits.induct) (auto intro: edits.intros edit1.intros)

lemma edits_step_left: "edits n b c \<Longrightarrow> edit1 a b \<Longrightarrow> edits (Suc n) a c"
  by (induction rule: edits.induct) (auto intro: edits.intros)

lemma edits_upper: "edits (levf a b) a b"
proof (induction a b rule: levf.induct)
  case (1 ys)
  show ?case
  proof (induction ys)
    case Nil
    show ?case by (simp add: edits.none)
  next
    case (Cons y ys)
    have "edits (length ys) [y] (y # ys)" using Cons by (simp add: edits_ctx)
    then have "edits (Suc (length ys)) [] (y # ys)"
      by (rule edits_step_left) (rule edit1.ins)
    then show ?case by simp
  qed
next
  case (2 x xs)
  have "edits (length xs) xs []"
  proof (induction xs)
    case Nil
    show ?case by (simp add: edits.none)
  next
    case (Cons z zs)
    from edits_step_left [OF Cons edit1.del [of z zs]] show ?case by simp
  qed
  from edits_step_left [OF this edit1.del [of x xs]] show ?case by simp
next
  case (3 x xs y ys)
  have d0: "x = y \<Longrightarrow> edits (levf xs ys) (x # xs) (y # ys)"
    using "3.IH"(1) by (simp add: edits_ctx)
  have d1: "edits (Suc (levf xs ys)) (x # xs) (y # ys)"
    by (rule edits_step_left [OF edits_ctx [OF "3.IH"(1)]]) (rule edit1.sub)
  have d2: "edits (Suc (levf xs (y # ys))) (x # xs) (y # ys)"
    by (rule edits_step_left [OF "3.IH"(2)]) (rule edit1.del)
  have d3: "edits (Suc (levf (x # xs) ys)) (x # xs) (y # ys)"
    by (rule edits.step [OF "3.IH"(3)]) (rule edit1.ins)
  from d0 d1 d2 d3 show ?case by (simp add: min_def)
qed

lemma edit1_sym: "edit1 a b \<Longrightarrow> edit1 b a"
  by (induction rule: edit1.induct) (auto intro: edit1.intros)

lemma edits_sym: "edits n a b \<Longrightarrow> edits n b a"
  by (induction rule: edits.induct) (auto intro: edits.none edits_step_left edit1_sym)

lemma edit1_append: "edit1 a b \<Longrightarrow> edit1 (a @ z) (b @ z)"
  by (induction rule: edit1.induct) (auto intro: edit1.intros)

lemma edit1_snoc_ins: "edit1 xs (xs @ [c])"
  by (induction xs) (auto intro: edit1.intros)

lemma edit1_snoc_sub: "edit1 (xs @ [c]) (xs @ [d])"
  by (induction xs) (auto intro: edit1.intros)

lemma edit1_rev: "edit1 a b \<Longrightarrow> edit1 (rev a) (rev b)"
  by (induction rule: edit1.induct)
    (auto intro: edit1_snoc_ins edit1_snoc_sub edit1_sym edit1_append)

lemma edits_rev: "edits n a b \<Longrightarrow> edits n (rev a) (rev b)"
  by (induction rule: edits.induct) (auto intro: edits.intros edit1_rev)

lemma lev_pre_0 [simp]: "lev_pre a b 0 j = min (length a) j" "lev_pre a b i 0 = min (length b) i"
  by (simp_all add: lev_pre_def)

lemma lev_pre_Suc:
  assumes "i < length b" "j < length a"
  shows "lev_pre a b (Suc i) (Suc j) =
    (if b ! i = a ! j then lev_pre a b i j
     else min (lev_pre a b i j + 1) (min (lev_pre a b (Suc i) j + 1) (lev_pre a b i (Suc j) + 1)))"
  using assms
  by (simp add: lev_pre_def take_Suc_conv_app_nth levf_Cons min.commute min.left_commute del: levf.simps)

lemma lev_init_rows_eq: "fold (\<lambda>i M. arr_put M i [i]) [0..<k] [] = map (\<lambda>i. [i]) [0..<k]"
  by (induction k) (simp_all add: arr_put_def)

lemma lev_init_first_fold:
  assumes "M \<noteq> []" "M ! 0 = [0]"
  shows "fold (\<lambda>j M. M[0 := arr_put (M ! 0) j j]) [0..<Suc k] M = M[0 := [0..<Suc k]]"
proof (induction k)
  case 0
  from assms show ?case by (simp add: arr_put_def list_update_same_conv)
next
  case (Suc k)
  from assms have "0 < length M" by simp
  with Suc show ?case by (simp add: arr_put_def)
qed

lemma lev_row_fold:
  assumes i: "0 < i" "i < length M" "i \<le> length b"
    and prev: "M ! (i - 1) = map (lev_pre a b (i - 1)) [0..<Suc (length a)]"
    and cur: "M ! i = [i]"
    and k: "k \<le> length a"
  shows "fold (\<lambda>j M. M[i := arr_put (M ! i) j (lev_cell a b M i j)]) [1..<Suc k] M
         = M[i := map (lev_pre a b i) [0..<Suc k]]"
  using k
proof (induction k)
  case 0
  from i cur have "M[i := [i]] = M" by (simp add: list_update_same_conv)
  with i show ?case by simp
next
  case (Suc k)
  let ?M = "M[i := map (lev_pre a b i) [0..<Suc k]]"
  from Suc have k: "k < length a" by simp
  obtain i' where i': "i = Suc i'" using i(1) by (cases i) auto
  have p: "?M ! (i - 1) = map (lev_pre a b (i - 1)) [0..<Suc (length a)]"
    using i prev by (simp add: i')
  have c: "?M ! i = map (lev_pre a b i) [0..<Suc k]"
    using i by simp
  have n1: "?M ! (i - 1) ! k = lev_pre a b i' k"
    using k unfolding p by (simp add: i' nth_append del: upt_Suc)
  have n2: "?M ! (i - 1) ! Suc k = lev_pre a b i' (Suc k)"
    using k unfolding p by (simp add: i' del: upt_Suc)
  have n3: "?M ! i ! k = lev_pre a b i k"
    unfolding c by (simp add: nth_append del: upt_Suc)
  have cell: "lev_cell a b ?M i (Suc k) = lev_pre a b i (Suc k)"
    unfolding lev_cell_def using n1 n2 n3 i k
    by (simp add: i' lev_pre_Suc del: upt_Suc)
  have "fold (\<lambda>j M. M[i := arr_put (M ! i) j (lev_cell a b M i j)]) [1..<Suc (Suc k)] M
        = ?M[i := arr_put (?M ! i) (Suc k) (lev_cell a b ?M i (Suc k))]"
    using Suc by simp
  also have "\<dots> = M[i := map (lev_pre a b i) [0..<Suc (Suc k)]]"
    unfolding cell c by (simp add: arr_put_def)
  finally show ?case .
qed

lemma lev_inv_row:
  assumes "lev_inv a b k M" "k < length b"
  shows "lev_inv a b (Suc k) (lev_row a b (Suc k) M)"
proof -
  from assms have len: "length M = Suc (length b)"
    and rows: "\<And>i. i \<le> k \<Longrightarrow> M ! i = map (lev_pre a b i) [0..<Suc (length a)]"
    and rest: "\<And>i. k < i \<Longrightarrow> i \<le> length b \<Longrightarrow> M ! i = [i]"
    by (auto simp: lev_inv_def)
  have "lev_row a b (Suc k) M = M[Suc k := map (lev_pre a b (Suc k)) [0..<Suc (length a)]]"
    unfolding lev_row_def
    by (rule lev_row_fold) (use assms(2) len rows [of k] rest [of "Suc k"] in simp_all)
  then show ?thesis
    using len rows rest assms(2) unfolding lev_inv_def
    by (auto simp: nth_list_update le_Suc_eq simp del: upt_Suc)
qed

lemma lev_inv_fill:
  assumes "lev_inv a b 0 M" "k \<le> length b"
  shows "lev_inv a b k (fold (lev_row a b) [1..<Suc k] M)"
  using assms(2)
proof (induction k)
  case 0
  from assms(1) show ?case by simp
next
  case (Suc k)
  then have "lev_inv a b k (fold (lev_row a b) [1..<Suc k] M)" by simp
  from lev_inv_row [OF this] Suc.prems show ?case by simp
qed

lemma lev_inv_init: "lev_inv a b 0 (lev_init_first (length a) (lev_init_rows (length b)))"
proof -
  let ?R = "map (\<lambda>i. [i]) [0..<Suc (length b)]"
  have r: "lev_init_rows (length b) = ?R"
    unfolding lev_init_rows_def by (rule lev_init_rows_eq)
  have "lev_init_first (length a) ?R = ?R[0 := [0..<Suc (length a)]]"
    unfolding lev_init_first_def
    by (rule lev_init_first_fold) (simp_all add: upt_conv_Cons del: upt_Suc)
  then show ?thesis
    unfolding r lev_inv_def
    by (auto simp: nth_list_update simp del: upt_Suc map_eq_conv intro!: nth_equalityI)
qed

lemma lev_matrix_eq: "lev_matrix a b = levf (rev b) (rev a)"
proof -
  have "lev_inv a b (length b) (lev_fill a b (lev_init_first (length a) (lev_init_rows (length b))))"
    unfolding lev_fill_def by (rule lev_inv_fill [OF lev_inv_init]) simp
  then show ?thesis
    unfolding lev_matrix_def lev_inv_def by (simp add: lev_pre_def del: upt_Suc)
qed

lemma levenshtein_matrix:
  "a \<noteq> [] \<Longrightarrow> b \<noteq> [] \<Longrightarrow> levenshtein lc a b = levf (rev (lc b)) (rev (lc a))"
  by (simp add: levenshtein_def lev_matrix_eq)

lemma levenshtein_empty:
  "a = [] \<or> b = [] \<Longrightarrow> levenshtein lc a b = max (length a) (length b)"
  by (auto simp: levenshtein_def)

lemma levenshtein_levf:
  assumes "(a \<noteq> [] \<and> b \<noteq> []) \<or> (lc [] = [] \<and> length (lc a) = length a \<and> length (lc b) = length b)"
  shows "levenshtein lc a b = levf (rev (lc b)) (rev (lc a))"
proof (cases "a \<noteq> [] \<and> b \<noteq> []")
  case True
  then show ?thesis by (simp add: levenshtein_matrix)
next
  case False
  with assms have l: "lc [] = []" "length (lc a) = length a" "length (lc b) = length b"
    by auto
  from False have e: "a = [] \<or> b = []" by simp
  then show ?thesis
  proof
    assume "a = []"
    with l show ?thesis by (simp add: levenshtein_empty)
  next
    assume "b = []"
    with l show ?thesis by (simp add: levenshtein_empty)
  qed
qed

lemma levf_edits: "edits (levf (rev y) (rev x)) x y"
proof -
  have "edits (levf (rev y) (rev x)) (rev y) (rev x)" by (rule edits_upper)
  from edits_sym [OF edits_rev [OF this]] show ?thesis by simp
qed

lemma levf_least:
  assumes "edits n x y"
  shows "levf (rev y) (rev x) \<le> n"
  using edits_rev [OF edits_sym [OF assms]] by (rule edits_lower)

lemma levenshtein_sym: "levenshtein lc a b = levenshtein lc b a"
proof (cases "a \<noteq> [] \<and> b \<noteq> []")
  case True
  then show ?thesis by (simp add: levenshtein_matrix levf_sym)
next
  case False
  then show ?thesis by (auto simp: levenshtein_def)
qed

lemma levenshtein_same_lower:
  "a \<noteq> [] \<Longrightarrow> b \<noteq> [] \<Longrightarrow> lc a = lc b \<Longrightarrow> levenshtein lc a b = 0"
  by (simp add: levenshtein_matrix)

lemma levenshtein_self: "levenshtein lc a a = 0"
  by (cases "a = []") (simp_all add: levenshtein_def lev_matrix_eq)

text \<open>
  C4, as stated, fails: the test for an empty argument comes before the lower-casing, and
  lower-casing can lengthen a string. The distance of the empty string to the one code unit
  U+0130 is 1, while the lower case of U+0130 has two code units, so one edit does not
  give it.
\<close>

theorem lengthening_lower_case_distance:
  "levenshtein lower_units [] [0x130] = 1
   \<and> lower_units [] = []
   \<and> lower_units [0x130] = [0x69, 0x307]
   \<and> \<not> edits (levenshtein lower_units [] [0x130]) (lower_units []) (lower_units [0x130])"
proof -
  have v: "levenshtein lower_units [] [0x130] = 1"
    by (simp add: levenshtein_def)
  have l: "lower_units [] = []" "lower_units [0x130] = [0x69, 0x307]"
    by (simp_all add: lower_units_def lower_unit_def)
  have "\<not> edits 1 [] [0x69, 0x307 :: nat]"
  proof
    assume "edits 1 [] [0x69, 0x307 :: nat]"
    from edits_lower [OF this] show False by simp
  qed
  with v l show ?thesis by simp
qed

text \<open>
  C4, amended. For strings \<open>a\<close> and \<open>b\<close> that are both non-empty, or whose lengths the
  lower-casing keeps, \<open>levenshtein\<close> is the least number of single-character insertions,
  deletions and substitutions that transform the lower-cased \<open>a\<close> into the lower-cased \<open>b\<close>:
  that many edits do it, and no fewer. For all strings and every lower-casing, the distance
  of a string to itself is 0, the distance is symmetric, the distance of two empty strings is
  0, the distance of the empty string to \<open>b\<close> is the length of \<open>b\<close>, and two non-empty
  strings with the same lower case are at distance 0, as \<open>Microsoft\<close> and \<open>microsoft\<close> are.
\<close>

theorem levenshtein_edit_distance:
  "((a \<noteq> [] \<and> b \<noteq> [])
      \<or> (lc [] = [] \<and> length (lc a) = length a \<and> length (lc b) = length b)
     \<longrightarrow> edits (levenshtein lc a b) (lc a) (lc b)
         \<and> (\<forall>n. edits n (lc a) (lc b) \<longrightarrow> levenshtein lc a b \<le> n))
   \<and> levenshtein lc a a = 0
   \<and> levenshtein lc a b = levenshtein lc b a
   \<and> levenshtein lc [] [] = 0
   \<and> levenshtein lc [] b = length b
   \<and> (a \<noteq> [] \<and> b \<noteq> [] \<and> lc a = lc b \<longrightarrow> levenshtein lc a b = 0)
   \<and> levenshtein toLowerCase ''Microsoft'' ''microsoft'' = 0"
proof -
  have main: "edits (levenshtein lc a b) (lc a) (lc b)
         \<and> (\<forall>n. edits n (lc a) (lc b) \<longrightarrow> levenshtein lc a b \<le> n)"
    if h: "(a \<noteq> [] \<and> b \<noteq> [])
      \<or> (lc [] = [] \<and> length (lc a) = length a \<and> length (lc b) = length b)"
    unfolding levenshtein_levf [OF h] using levf_edits [of "lc b" "lc a"] levf_least by blast
  have e: "levenshtein lc [] [] = 0" "levenshtein lc [] b = length b"
    by (simp_all add: levenshtein_def)
  have m: "levenshtein toLowerCase ''Microsoft'' ''microsoft'' = 0"
  proof (rule levenshtein_same_lower)
    show "toLowerCase ''Microsoft'' = toLowerCase ''microsoft''" by code_simp
  qed simp_all
  from main e m levenshtein_self [of lc a] levenshtein_sym [of lc a b]
    levenshtein_same_lower [of a b lc]
  show ?thesis by blast
qed

theorem levenshtein_edit_distance_witness:
  "''Ab'' \<noteq> [] \<and> ''b'' \<noteq> []
   \<and> edits 1 (toLowerCase ''Ab'') (toLowerCase ''b'')
   \<and> levenshtein toLowerCase ''Ab'' ''b'' \<le> 1
   \<and> toLowerCase ''Ab'' = toLowerCase ''aB''
   \<and> levenshtein toLowerCase ''Ab'' ''aB'' = 0
   \<and> toLowerCase [] = [] \<and> length (toLowerCase ''Ab'') = length ''Ab''
   \<and> edits 2 (toLowerCase []) (toLowerCase ''Ab'')
   \<and> levenshtein toLowerCase [] ''Ab'' \<le> 2"
proof -
  have l: "toLowerCase ''Ab'' = ''ab''" "toLowerCase ''b'' = ''b''" "toLowerCase ''aB'' = ''ab''"
    "toLowerCase [] = []"
    by code_simp+
  have n: "''Ab'' \<noteq> [] \<and> ''b'' \<noteq> []" "''Ab'' \<noteq> [] \<and> ''aB'' \<noteq> []"
    by simp_all
  have "edits (Suc 0) ''ab'' ''b''"
    by (rule edits.step [OF edits.none edit1.del])
  then have h: "edits 1 (toLowerCase ''Ab'') (toLowerCase ''b'')"
    by (simp add: l)
  have q: "toLowerCase ''Ab'' = toLowerCase ''aB''"
    by (simp add: l)
  have k: "toLowerCase [] = [] \<and> length (toLowerCase []) = length ([] :: string)
      \<and> length (toLowerCase ''Ab'') = length ''Ab''"
    by (simp add: l)
  have "edits (Suc (Suc 0)) [] ''ab''"
    by (rule edits.step [OF edits.step [OF edits.none edit1.ins] edit1.ctx [OF edit1.ins]])
  then have g: "edits 2 (toLowerCase []) (toLowerCase ''Ab'')"
    by (simp add: l numeral_2_eq_2)
  from levenshtein_edit_distance [of "''Ab''" "''b''" toLowerCase] n(1) h
  have a: "levenshtein toLowerCase ''Ab'' ''b'' \<le> 1" by blast
  from levenshtein_edit_distance [of "''Ab''" "''aB''" toLowerCase] n(2) q
  have b: "levenshtein toLowerCase ''Ab'' ''aB'' = 0" by blast
  from levenshtein_edit_distance [of "[]" "''Ab''" toLowerCase] k g
  have c: "levenshtein toLowerCase [] ''Ab'' \<le> 2" by blast
  from n(1) h a q b k g c show ?thesis by blast
qed

section \<open>The loops of the analyzers\<close>

subsection \<open>The loop over the links\<close>

lemma links_loop_acc: "links_loop U i ls acc = acc @ links_loop U i ls []"
proof (induction ls arbitrary: i acc)
  case Nil
  show ?case by simp
next
  case (Cons l ls)
  from Cons [of "Suc i" "acc @ link_step U i l"] Cons [of "Suc i" "link_step U i l"]
  show ?case by simp
qed

lemma links_loop_Cons:
  "links_loop U i (l # ls) [] = link_step U i l @ links_loop U (Suc i) ls []"
  using links_loop_acc [of U "Suc i" ls "link_step U i l"] by simp

lemma link_step_indicators:
  "map indicators (link_step U i l) = (if link_indicators U l \<noteq> [] then [link_indicators U l] else [])"
  by (simp add: link_step_def Let_def)

lemma links_loop_indicators:
  "map indicators (links_loop U i ls []) = filter (\<lambda>x. x \<noteq> []) (map (link_indicators U) ls)"
  by (induction ls arbitrary: i)
    (simp_all add: links_loop_Cons link_step_indicators del: links_loop.simps(2))

lemma links_loop_length:
  "length (links_loop U i ls []) = length (filter (\<lambda>l. link_indicators U l \<noteq> []) ls)"
proof -
  have "length (links_loop U i ls []) = length (map indicators (links_loop U i ls []))"
    by simp
  also have "\<dots> = length (filter (\<lambda>l. link_indicators U l \<noteq> []) ls)"
    unfolding links_loop_indicators by (simp add: filter_map comp_def)
  finally show ?thesis .
qed

lemma link_step_member:
  assumes "f \<in> set (link_step U i l)"
  shows "index f = i \<and> findingHref f = href l \<and> findingText f = linkText l
         \<and> indicators f = link_indicators U l \<and> indicators f \<noteq> []"
  using assms by (auto simp: link_step_def Let_def split: if_splits)

lemma links_loop_member:
  assumes "f \<in> set (links_loop U i ls [])"
  shows "i \<le> index f \<and> index f < i + length ls \<and> f \<in> set (link_step U (index f) (ls ! (index f - i)))"
  using assms
proof (induction ls arbitrary: i)
  case Nil
  then show ?case by simp
next
  case (Cons l ls)
  from Cons.prems have "f \<in> set (link_step U i l) \<or> f \<in> set (links_loop U (Suc i) ls [])"
    by (simp add: links_loop_Cons del: links_loop.simps(2))
  then show ?case
  proof
    assume a: "f \<in> set (link_step U i l)"
    with link_step_member [OF a] show ?thesis by simp
  next
    assume "f \<in> set (links_loop U (Suc i) ls [])"
    from Cons.IH [OF this] show ?thesis by (auto simp: Suc_diff_le)
  qed
qed

lemma links_loop_sorted: "sorted_wrt (<) (map index (links_loop U i ls []))"
proof (induction ls arbitrary: i)
  case Nil
  show ?case by simp
next
  case (Cons l ls)
  have "\<forall>x \<in> set (link_step U i l). \<forall>y \<in> set (links_loop U (Suc i) ls []). index x < index y"
    using link_step_member links_loop_member by fastforce
  moreover have "sorted_wrt (<) (map index (link_step U i l))"
    by (simp add: link_step_def Let_def)
  ultimately show ?case
    using Cons [of "Suc i"]
    by (simp add: links_loop_Cons sorted_wrt_append del: links_loop.simps(2))
qed

subsection \<open>The loop over the threads\<close>

lemma threads_loop_acc: "threads_loop i ts acc = acc @ threads_loop i ts []"
proof (induction ts arbitrary: i acc)
  case Nil
  show ?case by simp
next
  case (Cons t ts)
  from Cons [of "Suc i" "acc @ thread_findings i t"] Cons [of "Suc i" "thread_findings i t"]
  show ?case by simp
qed

lemma threads_loop_Cons:
  "threads_loop i (t # ts) [] = thread_findings i t @ threads_loop (Suc i) ts []"
  using threads_loop_acc [of "Suc i" ts "thread_findings i t"] by simp

lemma tld_check_cases:
  "tld_check i t d = [] \<or> (\<exists>tld. tld_check i t d =
      [\<lparr>index = i, reason = ''Sender domain uses suspicious TLD ('' @ tld @ '')'',
        indicators = [tag_tld], findingSender = sender t, findingSubject = subject t\<rparr>])"
  unfolding tld_check_def by (cases "find (\<lambda>tld. endsWith d tld) suspiciousTLDs") auto

lemma tld_check_member:
  assumes "f \<in> set (tld_check i t d)"
  shows "index f = i \<and> findingSender f = sender t \<and> findingSubject f = subject t
         \<and> indicators f = [tag_tld]"
  using assms tld_check_cases [of i t d] by auto

lemma sorted_const: "\<forall>x \<in> set xs. x = (i::nat) \<Longrightarrow> sorted xs"
  by (induction xs) auto

lemma typo_check_member:
  assumes "f \<in> set (typo_check i t token brand)"
  shows "index f = i \<and> findingSender f = sender t \<and> findingSubject f = subject t
         \<and> indicators f = [tag_typo, ''similar-to-'' @ brand]"
  using assms by (simp add: typo_check_def Let_def split: if_splits)

lemma thread_findings_member:
  assumes "f \<in> set (thread_findings i t)"
  shows "index f = i \<and> findingSender f = sender t \<and> findingSubject f = subject t
         \<and> (tag_tld \<in> set (indicators f) \<or> tag_typo \<in> set (indicators f))"
proof -
  from assms consider d where "f \<in> set (tld_check i t d)"
    | token brand where "f \<in> set (typo_check i t token brand)"
    unfolding thread_findings_def Let_def by auto
  then show ?thesis
  proof cases
    case 1
    from tld_check_member [OF this] show ?thesis by simp
  next
    case 2
    from typo_check_member [OF this] show ?thesis by simp
  qed
qed

lemma threads_loop_member:
  assumes "f \<in> set (threads_loop i ts [])"
  shows "i \<le> index f \<and> index f < i + length ts
         \<and> f \<in> set (thread_findings (index f) (ts ! (index f - i)))"
  using assms
proof (induction ts arbitrary: i)
  case Nil
  then show ?case by simp
next
  case (Cons t ts)
  from Cons.prems have "f \<in> set (thread_findings i t) \<or> f \<in> set (threads_loop (Suc i) ts [])"
    by (simp add: threads_loop_Cons del: threads_loop.simps(2))
  then show ?case
  proof
    assume a: "f \<in> set (thread_findings i t)"
    with thread_findings_member [OF a] show ?thesis by simp
  next
    assume "f \<in> set (threads_loop (Suc i) ts [])"
    from Cons.IH [OF this] show ?thesis by (auto simp: Suc_diff_le)
  qed
qed

lemma thread_findings_sorted: "sorted (map index (thread_findings i t))"
proof -
  have "\<forall>x \<in> set (map index (thread_findings i t)). x = i"
    using thread_findings_member by fastforce
  then show ?thesis by (rule sorted_const)
qed

lemma threads_loop_sorted: "sorted (map index (threads_loop i ts []))"
proof (induction ts arbitrary: i)
  case Nil
  show ?case by simp
next
  case (Cons t ts)
  have "\<forall>x \<in> set (thread_findings i t). \<forall>y \<in> set (threads_loop (Suc i) ts []). index x \<le> index y"
    using thread_findings_member threads_loop_member by fastforce
  then show ?case
    using Cons [of "Suc i"] thread_findings_sorted [of i t]
    by (simp add: threads_loop_Cons sorted_append del: threads_loop.simps(2))
qed

lemma analyzeInboxLocally_findings:
  "findings (analyzeInboxLocally ts) = threads_loop 0 ts []"
  by (simp add: analyzeInboxLocally_def Let_def)

lemma analyzeInboxLocally_level:
  "inboxLevel (analyzeInboxLocally ts) = (if threads_loop 0 ts [] = [] then Safe else Danger)"
proof (cases "threads_loop 0 ts [] = []")
  case True
  then show ?thesis by (simp add: analyzeInboxLocally_def Let_def)
next
  case False
  then obtain f where f: "f \<in> set (threads_loop 0 ts [])" by (cases "threads_loop 0 ts []") auto
  from threads_loop_member [OF f] thread_findings_member
  have "tag_tld \<in> set (indicators f) \<or> tag_typo \<in> set (indicators f)" by blast
  with f have "\<exists>f \<in> set (threads_loop 0 ts []). tag_tld \<in> set (indicators f) \<or> tag_typo \<in> set (indicators f)"
    by blast
  with False show ?thesis by (simp add: analyzeInboxLocally_def Let_def)
qed

section \<open>The link verdict\<close>

lemma suspicious_indicators:
  "map indicators (suspiciousLinks (analyzeUrlDeception U ls))
   = map (link_indicators U) (filter (\<lambda>l. link_indicators U l \<noteq> []) ls)"
  by (simp add: analyzeUrlDeception_def Let_def links_loop_indicators filter_map comp_def)

lemma suspicious_length:
  "length (suspiciousLinks (analyzeUrlDeception U ls))
   = length (filter (\<lambda>l. link_indicators U l \<noteq> []) ls)"
  using arg_cong [OF suspicious_indicators [of U ls], of length] by simp

lemma threat_level_eq:
  "threatLevel (analyzeUrlDeception U ls) = link_level (suspiciousLinks (analyzeUrlDeception U ls))"
  by (simp add: analyzeUrlDeception_def Let_def)

lemma quickScanLinks_level:
  "linkLevel (quickScanLinks U anchors) = threatLevel (analyzeUrlDeception U (linksToAnalyze anchors))"
  by (simp add: quickScanLinks_def Let_def threat_level_eq link_level_def)

lemma quickScanLinks_links:
  "map summaryIndicators (links (quickScanLinks U anchors))
   = map indicators (suspiciousLinks (analyzeUrlDeception U (linksToAnalyze anchors)))"
  by (simp add: quickScanLinks_def Let_def comp_def)

text \<open>
  C2. The level of the link verdict follows the number of links that produce a finding, that
  is, whose indicator list is not empty: two or more give danger; exactly one gives danger
  when its indicators include known-malicious, shortener or text-URL mismatch, and warning
  otherwise; none (also for the empty list of links) gives safe with no findings. The
  verdict of \<open>quickScanLinks\<close> has the level and the findings of \<open>analyzeUrlDeception\<close> on
  the links it prepares.
\<close>

theorem link_scoring_policy:
  "(2 \<le> length (filter (\<lambda>l. link_indicators U l \<noteq> []) ls)
      \<longrightarrow> threatLevel (analyzeUrlDeception U ls) = Danger)
   \<and> (length (filter (\<lambda>l. link_indicators U l \<noteq> []) ls) = 1
      \<longrightarrow> threatLevel (analyzeUrlDeception U ls)
          = (if strong_link (link_indicators U (hd (filter (\<lambda>l. link_indicators U l \<noteq> []) ls)))
             then Danger else Warning))
   \<and> (filter (\<lambda>l. link_indicators U l \<noteq> []) ls = []
      \<longrightarrow> threatLevel (analyzeUrlDeception U ls) = Safe
          \<and> suspiciousLinks (analyzeUrlDeception U ls) = [])
   \<and> length (suspiciousLinks (analyzeUrlDeception U ls))
       = length (filter (\<lambda>l. link_indicators U l \<noteq> []) ls)
   \<and> threatLevel (analyzeUrlDeception U []) = Safe
   \<and> suspiciousLinks (analyzeUrlDeception U []) = []
   \<and> linkLevel (quickScanLinks U anchors)
       = threatLevel (analyzeUrlDeception U (linksToAnalyze anchors))
   \<and> map summaryIndicators (links (quickScanLinks U anchors))
       = map indicators (suspiciousLinks (analyzeUrlDeception U (linksToAnalyze anchors)))"
proof -
  let ?fs = "suspiciousLinks (analyzeUrlDeception U ls)"
  let ?fl = "filter (\<lambda>l. link_indicators U l \<noteq> []) ls"
  have len: "length ?fs = length ?fl" by (rule suspicious_length)
  have two: "2 \<le> length ?fl \<Longrightarrow> threatLevel (analyzeUrlDeception U ls) = Danger"
    unfolding threat_level_eq link_level_def len by simp
  have one: "threatLevel (analyzeUrlDeception U ls)
             = (if strong_link (link_indicators U (hd ?fl)) then Danger else Warning)"
    if h: "length ?fl = 1"
  proof -
    from h len have "0 < length ?fs" by simp
    then have "indicators (?fs ! 0) = map indicators ?fs ! 0" by simp
    also have "\<dots> = link_indicators U (?fl ! 0)"
      unfolding suspicious_indicators using h by simp
    also have "?fl ! 0 = hd ?fl" using h by (cases ?fl) simp_all
    finally show ?thesis
      unfolding threat_level_eq link_level_def len using h by (simp add: Let_def)
  qed
  have zero: "threatLevel (analyzeUrlDeception U ls) = Safe \<and> ?fs = []" if h: "?fl = []"
  proof -
    from h len have "?fs = []" by simp
    then show ?thesis unfolding threat_level_eq by (simp add: link_level_def)
  qed
  have empty: "threatLevel (analyzeUrlDeception U []) = Safe"
    "suspiciousLinks (analyzeUrlDeception U []) = []"
    by (simp_all add: analyzeUrlDeception_def link_level_def)
  from two one zero len empty quickScanLinks_level [of U anchors]
    quickScanLinks_links [of U anchors]
  show ?thesis by blast
qed


theorem link_scoring_policy_witness:
  "length (filter (\<lambda>l. link_indicators url_hostname l \<noteq> [])
      [link_of ''https://bit.ly/abc'' ''Click here'']) = 1
   \<and> threatLevel (analyzeUrlDeception url_hostname [link_of ''https://bit.ly/abc'' ''Click here''])
       = Danger
   \<and> filter (\<lambda>l. link_indicators url_hostname l \<noteq> [])
       [link_of ''https://example.com'' ''example.com''] = []
   \<and> threatLevel (analyzeUrlDeception url_hostname [link_of ''https://example.com'' ''example.com''])
       = Safe
   \<and> 2 \<le> length (filter (\<lambda>l. link_indicators url_hostname l \<noteq> [])
       [link_of ''http://example.com'' ''home'', link_of ''http://example.org'' ''news''])
   \<and> threatLevel (analyzeUrlDeception url_hostname
       [link_of ''http://example.com'' ''home'', link_of ''http://example.org'' ''news'']) = Danger"
proof -
  let ?L = "[link_of ''https://bit.ly/abc'' ''Click here'']"
  let ?S = "[link_of ''https://example.com'' ''example.com'']"
  let ?W = "[link_of ''http://example.com'' ''home'', link_of ''http://example.org'' ''news'']"
  have i: "link_indicators url_hostname (link_of ''https://bit.ly/abc'' ''Click here'') = [ind_shortener]"
    by code_simp
  have j: "link_indicators url_hostname (link_of ''https://example.com'' ''example.com'') = []"
    by code_simp
  have k: "link_indicators url_hostname (link_of ''http://example.com'' ''home'') = [ind_http]"
    "link_indicators url_hostname (link_of ''http://example.org'' ''news'') = [ind_http]"
    by code_simp+
  have h1: "length (filter (\<lambda>l. link_indicators url_hostname l \<noteq> []) ?L) = 1"
    by (simp add: i)
  have s: "strong_link (link_indicators url_hostname
             (hd (filter (\<lambda>l. link_indicators url_hostname l \<noteq> []) ?L)))"
    by (simp add: i strong_link_def)
  have h0: "filter (\<lambda>l. link_indicators url_hostname l \<noteq> []) ?S = []"
    by (simp add: j)
  have h2: "2 \<le> length (filter (\<lambda>l. link_indicators url_hostname l \<noteq> []) ?W)"
    by (simp add: k)
  from link_scoring_policy [of url_hostname ?L] h1 s
  have a: "threatLevel (analyzeUrlDeception url_hostname ?L) = Danger" by presburger
  from link_scoring_policy [of url_hostname ?S] h0
  have b: "threatLevel (analyzeUrlDeception url_hostname ?S) = Safe" by blast
  from link_scoring_policy [of url_hostname ?W] h2
  have c: "threatLevel (analyzeUrlDeception url_hostname ?W) = Danger" by blast
  from h1 a h0 b h2 c show ?thesis by blast
qed

text \<open>
  C3, as stated, fails: two links whose only indicator is the weak one for plain http give
  danger.
\<close>

theorem danger_without_strong_indicator:
  "threatLevel (analyzeUrlDeception url_hostname
       [link_of ''http://example.com'' ''home'', link_of ''http://example.org'' ''news'']) = Danger
   \<and> map indicators (suspiciousLinks (analyzeUrlDeception url_hostname
       [link_of ''http://example.com'' ''home'', link_of ''http://example.org'' ''news'']))
     = [[ind_http], [ind_http]]
   \<and> \<not> strong_link [ind_http]"
  by code_simp

text \<open>
  C3, amended. A link verdict of level danger has two or more findings or a finding with a
  strong indicator (known-malicious, shortener, text-URL mismatch); a thread verdict of level
  danger has a finding tagged suspicious-tld or typosquatting.
\<close>

theorem danger_needs_strong_or_two:
  "(threatLevel (analyzeUrlDeception U ls) = Danger
      \<longrightarrow> 2 \<le> length (suspiciousLinks (analyzeUrlDeception U ls))
          \<or> (\<exists>f \<in> set (suspiciousLinks (analyzeUrlDeception U ls)). strong_link (indicators f)))
   \<and> (inboxLevel (analyzeInboxLocally ts) = Danger
      \<longrightarrow> (\<exists>f \<in> set (findings (analyzeInboxLocally ts)).
            tag_tld \<in> set (indicators f) \<or> tag_typo \<in> set (indicators f)))"
proof (intro conjI impI)
  let ?fs = "suspiciousLinks (analyzeUrlDeception U ls)"
  assume d: "threatLevel (analyzeUrlDeception U ls) = Danger"
  show "2 \<le> length ?fs \<or> (\<exists>f \<in> set ?fs. strong_link (indicators f))"
  proof (cases "2 \<le> length ?fs")
    case True
    then show ?thesis by simp
  next
    case False
    with d have l: "length ?fs = 1" and s: "strong_link (indicators (?fs ! 0))"
      unfolding threat_level_eq link_level_def by (auto simp: Let_def split: if_splits)
    from l have "?fs ! 0 \<in> set ?fs" by simp
    with s show ?thesis by blast
  qed
next
  let ?fs = "findings (analyzeInboxLocally ts)"
  assume "inboxLevel (analyzeInboxLocally ts) = Danger"
  then have "?fs \<noteq> []"
    by (auto simp: analyzeInboxLocally_level analyzeInboxLocally_findings split: if_splits)
  then obtain f where f: "f \<in> set ?fs" by (cases ?fs) auto
  then have "f \<in> set (threads_loop 0 ts [])" by (simp add: analyzeInboxLocally_findings)
  from threads_loop_member [OF this] thread_findings_member
  have "tag_tld \<in> set (indicators f) \<or> tag_typo \<in> set (indicators f)" by blast
  with f show "\<exists>f \<in> set ?fs. tag_tld \<in> set (indicators f) \<or> tag_typo \<in> set (indicators f)"
    by blast
qed

theorem danger_needs_strong_or_two_witness:
  "threatLevel (analyzeUrlDeception url_hostname [link_of ''https://bit.ly/abc'' ''Click here''])
     = Danger
   \<and> (\<exists>f \<in> set (suspiciousLinks
          (analyzeUrlDeception url_hostname [link_of ''https://bit.ly/abc'' ''Click here''])).
         strong_link (indicators f))
   \<and> inboxLevel (analyzeInboxLocally [thread_of ''alerts@account-check.tk'' ''hi'']) = Danger
   \<and> (\<exists>f \<in> set (findings (analyzeInboxLocally [thread_of ''alerts@account-check.tk'' ''hi''])).
         tag_tld \<in> set (indicators f) \<or> tag_typo \<in> set (indicators f))"
proof -
  let ?L = "[link_of ''https://bit.ly/abc'' ''Click here'']"
  let ?T = "[thread_of ''alerts@account-check.tk'' ''hi'']"
  have a: "threatLevel (analyzeUrlDeception url_hostname ?L) = Danger"
    by code_simp
  have n: "\<not> 2 \<le> length (suspiciousLinks (analyzeUrlDeception url_hostname ?L))"
    by code_simp
  have b: "inboxLevel (analyzeInboxLocally ?T) = Danger"
    by code_simp
  from danger_needs_strong_or_two [of url_hostname ?L ?T] a n b show ?thesis by blast
qed

text \<open>
  C6, as stated, fails: a destination without a scheme does not parse, contains the name of a
  known shortener, and gets no indicator.
\<close>

theorem unparsed_shortener_not_flagged:
  "url_hostname ''bit.ly/abc'' = Inl TypeError
   \<and> ''bit.ly'' \<in> set shorteners
   \<and> str_includes ''bit.ly/abc'' ''bit.ly''
   \<and> link_indicators url_hostname (link_of ''bit.ly/abc'' ''Click here'') = []"
  by code_simp

text \<open>
  C6, amended. A link whose destination does not parse does not stop the scan, and its only
  possible indicator is the one for a destination that starts with \<open>http://\<close>: the checks
  on the host (text-URL mismatch, shortener, known-malicious, auth pattern) contribute
  nothing. Every link of the list contributes its own indicators to the findings, whatever
  the other links are.
\<close>

theorem unparsed_href_indicators:
  "(U (href l) = Inl e
      \<longrightarrow> link_indicators U l = (if startsWith (href l) ''http://'' then [ind_http] else []))
   \<and> map indicators (suspiciousLinks (analyzeUrlDeception U ls))
       = filter (\<lambda>x. x \<noteq> []) (map (link_indicators U) ls)
   \<and> analyzed (analyzeUrlDeception U ls) = length ls"
proof -
  have "link_indicators U l = (if startsWith (href l) ''http://'' then [ind_http] else [])"
    if h: "U (href l) = Inl e"
  proof -
    from h have host: "hostname_or_empty U (href l) = []"
      by (simp add: hostname_or_empty_def)
    have m: "\<not> text_mismatch U [] (linkText l)"
      by (simp add: text_mismatch_def Let_def split: option.splits)
    have a: "\<not> (\<exists>p \<in> set authPatterns. str_includes [] p)"
      by (simp add: authPatterns_def)
    have s: "startsWith (href l) ''http://'' \<Longrightarrow> href l \<noteq> []"
      by (auto simp: startsWith_def)
    show ?thesis
      unfolding link_indicators_def host Let_def using m a s by simp
  qed
  moreover have "map indicators (suspiciousLinks (analyzeUrlDeception U ls))
       = filter (\<lambda>x. x \<noteq> []) (map (link_indicators U) ls)"
    by (simp add: analyzeUrlDeception_def Let_def links_loop_indicators)
  moreover have "analyzed (analyzeUrlDeception U ls) = length ls"
    by (simp add: analyzeUrlDeception_def Let_def)
  ultimately show ?thesis by blast
qed

theorem unparsed_href_indicators_witness:
  "url_hostname (href (link_of ''http://'' ''Click here'')) = Inl TypeError
   \<and> link_indicators url_hostname (link_of ''http://'' ''Click here'') = [ind_http]"
proof -
  have h: "url_hostname (href (link_of ''http://'' ''Click here'')) = Inl TypeError"
    by code_simp
  have s: "startsWith (href (link_of ''http://'' ''Click here'')) ''http://''"
    by code_simp
  from unparsed_href_indicators [of url_hostname "link_of ''http://'' ''Click here''" TypeError]
    h s
  show ?thesis by presburger
qed

text \<open>
  C7. Every finding of the thread analyzer carries suspicious-tld or typosquatting, so a
  verdict with findings has level danger; the level warning is never produced.
\<close>

theorem thread_findings_always_danger:
  "(findings (analyzeInboxLocally ts) \<noteq> [] \<longrightarrow> inboxLevel (analyzeInboxLocally ts) = Danger)
   \<and> (\<forall>f \<in> set (findings (analyzeInboxLocally ts)).
         tag_tld \<in> set (indicators f) \<or> tag_typo \<in> set (indicators f))
   \<and> inboxLevel (analyzeInboxLocally ts)
       = (if findings (analyzeInboxLocally ts) = [] then Safe
          else if (\<exists>f \<in> set (findings (analyzeInboxLocally ts)).
                     tag_tld \<in> set (indicators f) \<or> tag_typo \<in> set (indicators f))
          then Danger else Warning)
   \<and> inboxLevel (analyzeInboxLocally ts) \<noteq> Warning"
proof -
  let ?fs = "findings (analyzeInboxLocally ts)"
  have all: "\<forall>f \<in> set ?fs. tag_tld \<in> set (indicators f) \<or> tag_typo \<in> set (indicators f)"
    unfolding analyzeInboxLocally_findings using threads_loop_member thread_findings_member
    by blast
  have lvl: "inboxLevel (analyzeInboxLocally ts) = (if ?fs = [] then Safe else Danger)"
    by (simp add: analyzeInboxLocally_level analyzeInboxLocally_findings)
  have ex: "?fs \<noteq> [] \<Longrightarrow> \<exists>f \<in> set ?fs. tag_tld \<in> set (indicators f) \<or> tag_typo \<in> set (indicators f)"
    using all by (cases ?fs) auto
  from all lvl ex show ?thesis by auto
qed

theorem thread_findings_always_danger_witness:
  "findings (analyzeInboxLocally [thread_of ''alerts@account-check.tk'' ''hi'']) \<noteq> []
   \<and> inboxLevel (analyzeInboxLocally [thread_of ''alerts@account-check.tk'' ''hi'']) = Danger
   \<and> (tag_tld \<in> set (indicators (hd (findings
          (analyzeInboxLocally [thread_of ''alerts@account-check.tk'' ''hi'']))))
       \<or> tag_typo \<in> set (indicators (hd (findings
          (analyzeInboxLocally [thread_of ''alerts@account-check.tk'' ''hi''])))))"
proof -
  let ?T = "[thread_of ''alerts@account-check.tk'' ''hi'']"
  have h: "findings (analyzeInboxLocally ?T) \<noteq> []"
    by code_simp
  then have m: "hd (findings (analyzeInboxLocally ?T)) \<in> set (findings (analyzeInboxLocally ?T))"
    by (rule hd_in_set)
  from thread_findings_always_danger [of ?T] h m
  show ?thesis by blast
qed

section \<open>Indices of the findings\<close>

text \<open>
  C10. In the verdicts of both analyzers the index of a finding is a position of the input
  list, the finding is the one that the record at that position produces, and the indices of
  the findings never decrease along the sequence.
\<close>

theorem findings_index_invariant:
  "(\<forall>f \<in> set (suspiciousLinks (analyzeUrlDeception U ls)).
       index f < length ls \<and> findingHref f = href (ls ! index f)
       \<and> findingText f = linkText (ls ! index f)
       \<and> indicators f = link_indicators U (ls ! index f))
   \<and> sorted (map index (suspiciousLinks (analyzeUrlDeception U ls)))
   \<and> (\<forall>f \<in> set (findings (analyzeInboxLocally ts)).
       index f < length ts \<and> findingSender f = sender (ts ! index f)
       \<and> findingSubject f = subject (ts ! index f)
       \<and> f \<in> set (thread_findings (index f) (ts ! index f)))
   \<and> sorted (map index (findings (analyzeInboxLocally ts)))"
proof (intro conjI ballI)
  fix f
  assume "f \<in> set (suspiciousLinks (analyzeUrlDeception U ls))"
  then have "f \<in> set (links_loop U 0 ls [])"
    by (simp add: analyzeUrlDeception_def Let_def)
  from links_loop_member [OF this]
  have i: "index f < length ls" and m: "f \<in> set (link_step U (index f) (ls ! index f))"
    by simp_all
  from i link_step_member [OF m]
  show "index f < length ls" "findingHref f = href (ls ! index f)"
    "findingText f = linkText (ls ! index f)" "indicators f = link_indicators U (ls ! index f)"
    by simp_all
next
  have "sorted_wrt (<) (map index (links_loop U 0 ls []))" by (rule links_loop_sorted)
  then have "sorted (map index (links_loop U 0 ls []))"
    by (rule sorted_wrt_mono_rel [rotated]) simp
  then show "sorted (map index (suspiciousLinks (analyzeUrlDeception U ls)))"
    by (simp add: analyzeUrlDeception_def Let_def)
next
  fix f
  assume "f \<in> set (findings (analyzeInboxLocally ts))"
  then have "f \<in> set (threads_loop 0 ts [])"
    by (simp add: analyzeInboxLocally_findings)
  from threads_loop_member [OF this]
  have i: "index f < length ts" and m: "f \<in> set (thread_findings (index f) (ts ! index f))"
    by simp_all
  from i m thread_findings_member [OF m]
  show "index f < length ts" "findingSender f = sender (ts ! index f)"
    "findingSubject f = subject (ts ! index f)"
    "f \<in> set (thread_findings (index f) (ts ! index f))"
    by simp_all
next
  show "sorted (map index (findings (analyzeInboxLocally ts)))"
    unfolding analyzeInboxLocally_findings by (rule threads_loop_sorted)
qed

theorem findings_index_invariant_witness:
  "suspiciousLinks (analyzeUrlDeception url_hostname
      [link_of ''https://example.com'' ''home'', link_of ''https://bit.ly/abc'' ''Click here'']) \<noteq> []
   \<and> index (hd (suspiciousLinks (analyzeUrlDeception url_hostname
      [link_of ''https://example.com'' ''home'', link_of ''https://bit.ly/abc'' ''Click here''])))
       < length [link_of ''https://example.com'' ''home'', link_of ''https://bit.ly/abc'' ''Click here'']
   \<and> findings (analyzeInboxLocally [thread_of ''alerts@account-check.tk'' ''hi'']) \<noteq> []
   \<and> index (hd (findings (analyzeInboxLocally [thread_of ''alerts@account-check.tk'' ''hi''])))
       < length [thread_of ''alerts@account-check.tk'' ''hi'']"
proof -
  let ?L = "[link_of ''https://example.com'' ''home'', link_of ''https://bit.ly/abc'' ''Click here'']"
  let ?T = "[thread_of ''alerts@account-check.tk'' ''hi'']"
  have a: "suspiciousLinks (analyzeUrlDeception url_hostname ?L) \<noteq> []"
    by code_simp
  have b: "findings (analyzeInboxLocally ?T) \<noteq> []"
    by code_simp
  from a have a': "hd (suspiciousLinks (analyzeUrlDeception url_hostname ?L))
      \<in> set (suspiciousLinks (analyzeUrlDeception url_hostname ?L))"
    by (rule hd_in_set)
  from b have b': "hd (findings (analyzeInboxLocally ?T)) \<in> set (findings (analyzeInboxLocally ?T))"
    by (rule hd_in_set)
  from findings_index_invariant [of url_hostname ?L ?T] a a' b b' show ?thesis by blast
qed

subsection \<open>The typosquatting scenario\<close>

lemma rnicrosoft_scan:
  "analyzeInboxLocally [thread_of ''support@rnicrosoft-security.com'' ''verify'']
   = \<lparr>inboxLevel = Safe, inboxDetail = ''Checks out! '' @ check_mark, findings = []\<rparr>"
  by code_simp

lemma rnicrosoft_distance:
  "levenshtein toLowerCase ''rnicrosoft'' ''microsoft'' = 2" "typo_bound ''microsoft'' = 1"
  by code_simp+

text \<open>
  C5, as stated, fails: the scan of the record finds nothing, since the distance 2 of
  \<open>rnicrosoft\<close> to \<open>microsoft\<close> is above the bound 1 of a brand of nine letters.
\<close>

theorem rnicrosoft_not_flagged:
  "levenshtein toLowerCase ''rnicrosoft'' ''microsoft'' = 2
   \<and> typo_bound ''microsoft'' = 1
   \<and> \<not> (\<exists>f \<in> set (findings (analyzeInboxLocally
            [thread_of ''support@rnicrosoft-security.com'' ''verify''])).
          tag_typo \<in> set (indicators f) \<and> ''similar-to-microsoft'' \<in> set (indicators f))"
  using rnicrosoft_distance by (simp add: rnicrosoft_scan)

subsection \<open>The findings of the typosquatting check\<close>

lemma split_tokens_alnum:
  assumes "t \<in> set (split_tokens cur s)" "\<forall>c \<in> set cur. is_lower_alnum c"
  shows "\<forall>c \<in> set t. is_lower_alnum c"
  using assms
proof (induction s arbitrary: cur)
  case Nil
  then show ?case by (auto split: if_splits)
next
  case (Cons c s)
  show ?case
  proof (cases "is_lower_alnum c")
    case True
    with Cons.prems have "t \<in> set (split_tokens (cur @ [c]) s)" by simp
    moreover from True Cons.prems(2) have "\<forall>x \<in> set (cur @ [c]). is_lower_alnum x" by simp
    ultimately show ?thesis by (rule Cons.IH)
  next
    case False
    with Cons.prems have "t = cur \<or> t \<in> set (split_tokens [] s)"
      by (auto split: if_splits)
    then show ?thesis
    proof
      assume "t = cur"
      with Cons.prems(2) show ?thesis by simp
    next
      assume "t \<in> set (split_tokens [] s)"
      then show ?thesis by (rule Cons.IH) simp
    qed
  qed
qed

lemma typo_check_indicators:
  assumes "\<forall>c \<in> set token. is_lower_alnum c"
  shows "map indicators (typo_check i t token brand)
     = (if 4 \<le> length token \<and> 4 \<le> length brand
           \<and> 0 < levenshtein toLowerCase token brand
           \<and> levenshtein toLowerCase token brand \<le> max 1 (length brand div 5)
        then [[tag_typo, ''similar-to-'' @ brand]] else [])"
proof -
  from assms have "filter is_lower_alnum token = token" by simp
  then show ?thesis
    by (simp add: typo_check_def typo_bound_def Let_def not_less)
qed

lemma typo_brands_indicators:
  assumes "\<forall>c \<in> set token. is_lower_alnum c"
  shows "map indicators (concat (map (typo_check i t token) brands))
     = map (\<lambda>(token, brand). [tag_typo, ''similar-to-'' @ brand])
         (filter (\<lambda>(token, brand). 4 \<le> length token \<and> 4 \<le> length brand
                    \<and> 0 < levenshtein toLowerCase token brand
                    \<and> levenshtein toLowerCase token brand \<le> max 1 (length brand div 5))
            (map (Pair token) brands))"
  by (induction brands) (simp_all add: typo_check_indicators [OF assms])

lemma typo_tokens_indicators:
  assumes "\<forall>token \<in> set tokens. \<forall>c \<in> set token. is_lower_alnum c"
  shows "map indicators (concat (map (\<lambda>token. concat (map (typo_check i t token) brands)) tokens))
     = map (\<lambda>(token, brand). [tag_typo, ''similar-to-'' @ brand])
         (filter (\<lambda>(token, brand). 4 \<le> length token \<and> 4 \<le> length brand
                    \<and> 0 < levenshtein toLowerCase token brand
                    \<and> levenshtein toLowerCase token brand \<le> max 1 (length brand div 5))
            (List.product tokens brands))"
  using assms
proof (induction tokens)
  case Nil
  show ?case by simp
next
  case (Cons token tokens)
  from Cons.prems have a: "\<forall>c \<in> set token. is_lower_alnum c" by simp
  from Cons.prems have "\<forall>token \<in> set tokens. \<forall>c \<in> set token. is_lower_alnum c" by simp
  from Cons.IH [OF this] typo_brands_indicators [OF a, of i t brands]
  show ?case by simp
qed

lemma tag_typo_not_tld: "tag_typo \<noteq> tag_tld"
  by (simp add: tag_typo_def tag_tld_def)

lemma thread_findings_typo:
  "filter (\<lambda>f. tag_typo \<in> set (indicators f)) (thread_findings i t)
   = concat (map (\<lambda>token. concat (map (typo_check i t token) knownBrands))
       (split_tokens [] (toLowerCase (sender t) @ '' '' @ toLowerCase (subject t))))"
proof -
  have a: "filter (\<lambda>f. tag_typo \<in> set (indicators f)) (tld_check i t d) = []" for d
    using tld_check_member [of _ i t d] tag_typo_not_tld by (auto simp: filter_empty_conv)
  have b: "filter (\<lambda>f. tag_typo \<in> set (indicators f)) xs = xs"
    if "\<forall>f \<in> set xs. \<exists>token brand. f \<in> set (typo_check i t token brand)" for xs
    using that typo_check_member [of _ i t] by (intro filter_True) fastforce
  show ?thesis
    unfolding thread_findings_def Let_def filter_append a
    by (simp, rule b) auto
qed

lemma thread_findings_index:
  "filter (\<lambda>f. index f = j) (thread_findings i t) = (if j = i then thread_findings i t else [])"
  using thread_findings_member [of _ i t] by (auto simp: filter_empty_conv intro!: filter_True)

lemma threads_loop_index:
  "filter (\<lambda>f. index f = j) (threads_loop i ts [])
   = (if i \<le> j \<and> j < i + length ts then thread_findings j (ts ! (j - i)) else [])"
proof (induction ts arbitrary: i)
  case Nil
  show ?case by auto
next
  case (Cons t ts)
  show ?case
    unfolding threads_loop_Cons filter_append thread_findings_index Cons.IH
    by (auto simp: Suc_diff_le)
qed

text \<open>
  C5, amended. In the verdict of the thread analyzer, the findings tagged typosquatting
  of the record at position \<open>i\<close> are, in order, one finding tagged typosquatting and
  similar-to-brand for each pair of a token of the record and a brand of the list, both
  of length 4 or more, whose distance \<open>d\<close> satisfies
  \<open>0 < d \<le> max(1, floor(brand_length * 0.2))\<close>, and no other. For \<open>rnicrosoft\<close> and
  \<open>microsoft\<close> the distance is 2 and the bound is 1, and the scan of the record of the
  scenario is safe with no finding.
\<close>

theorem typosquatting_rule:
  "(i < length ts \<longrightarrow>
      map indicators
        (filter (\<lambda>f. index f = i \<and> tag_typo \<in> set (indicators f))
           (findings (analyzeInboxLocally ts)))
      = map (\<lambda>(token, brand). [tag_typo, ''similar-to-'' @ brand])
          (filter (\<lambda>(token, brand). 4 \<le> length token \<and> 4 \<le> length brand
                     \<and> 0 < levenshtein toLowerCase token brand
                     \<and> levenshtein toLowerCase token brand \<le> max 1 (length brand div 5))
             (List.product
                (split_tokens []
                   (toLowerCase (sender (ts ! i)) @ '' '' @ toLowerCase (subject (ts ! i))))
                knownBrands)))
   \<and> levenshtein toLowerCase ''rnicrosoft'' ''microsoft'' = 2
   \<and> max 1 (length ''microsoft'' div 5) = (1::nat)
   \<and> analyzeInboxLocally [thread_of ''support@rnicrosoft-security.com'' ''verify'']
       = \<lparr>inboxLevel = Safe, inboxDetail = ''Checks out! '' @ check_mark, findings = []\<rparr>"
proof -
  have main: "map indicators
        (filter (\<lambda>f. index f = i \<and> tag_typo \<in> set (indicators f))
           (findings (analyzeInboxLocally ts)))
      = map (\<lambda>(token, brand). [tag_typo, ''similar-to-'' @ brand])
          (filter (\<lambda>(token, brand). 4 \<le> length token \<and> 4 \<le> length brand
                     \<and> 0 < levenshtein toLowerCase token brand
                     \<and> levenshtein toLowerCase token brand \<le> max 1 (length brand div 5))
             (List.product
                (split_tokens []
                   (toLowerCase (sender (ts ! i)) @ '' '' @ toLowerCase (subject (ts ! i))))
                knownBrands))"
    if i: "i < length ts"
  proof -
    let ?tokens = "split_tokens []
        (toLowerCase (sender (ts ! i)) @ '' '' @ toLowerCase (subject (ts ! i)))"
    have "filter (\<lambda>f. index f = i \<and> tag_typo \<in> set (indicators f))
            (findings (analyzeInboxLocally ts))
          = filter (\<lambda>f. tag_typo \<in> set (indicators f))
              (filter (\<lambda>f. index f = i) (threads_loop 0 ts []))"
      by (simp add: analyzeInboxLocally_findings)
    also have "\<dots> = filter (\<lambda>f. tag_typo \<in> set (indicators f)) (thread_findings i (ts ! i))"
      using i by (simp add: threads_loop_index)
    also have "\<dots> = concat (map (\<lambda>token. concat (map (typo_check i (ts ! i) token) knownBrands))
        ?tokens)"
      by (rule thread_findings_typo)
    finally have f: "filter (\<lambda>f. index f = i \<and> tag_typo \<in> set (indicators f))
            (findings (analyzeInboxLocally ts))
          = concat (map (\<lambda>token. concat (map (typo_check i (ts ! i) token) knownBrands)) ?tokens)" .
    have "\<forall>token \<in> set ?tokens. \<forall>c \<in> set token. is_lower_alnum c"
      using split_tokens_alnum [of _ "[]"] by simp
    from typo_tokens_indicators [OF this, of i "ts ! i" knownBrands] show ?thesis
      unfolding f .
  qed
  have "max 1 (length ''microsoft'' div 5) = (1::nat)" by simp
  with main rnicrosoft_distance(1) rnicrosoft_scan show ?thesis by blast
qed

theorem typosquatting_rule_witness:
  "0 < length [thread_of ''x@y.com'' ''paypa1'']
   \<and> levenshtein toLowerCase ''paypa1'' ''paypal'' = 1
   \<and> map indicators
        (filter (\<lambda>f. index f = 0 \<and> tag_typo \<in> set (indicators f))
           (findings (analyzeInboxLocally [thread_of ''x@y.com'' ''paypa1''])))
      = [[tag_typo, ''similar-to-paypal'']]"
proof -
  let ?T = "[thread_of ''x@y.com'' ''paypa1'']"
  have l: "0 < length ?T" by simp
  have d: "levenshtein toLowerCase ''paypa1'' ''paypal'' = 1" by code_simp
  have r: "map (\<lambda>(token, brand). [tag_typo, ''similar-to-'' @ brand])
          (filter (\<lambda>(token, brand). 4 \<le> length token \<and> 4 \<le> length brand
                     \<and> 0 < levenshtein toLowerCase token brand
                     \<and> levenshtein toLowerCase token brand \<le> max 1 (length brand div 5))
             (List.product
                (split_tokens []
                   (toLowerCase (sender (?T ! 0)) @ '' '' @ toLowerCase (subject (?T ! 0))))
                knownBrands))
        = [[tag_typo, ''similar-to-paypal'']]"
    by code_simp
  from typosquatting_rule [of 0 ?T] l
  have "map indicators
        (filter (\<lambda>f. index f = 0 \<and> tag_typo \<in> set (indicators f))
           (findings (analyzeInboxLocally ?T)))
      = map (\<lambda>(token, brand). [tag_typo, ''similar-to-'' @ brand])
          (filter (\<lambda>(token, brand). 4 \<le> length token \<and> 4 \<le> length brand
                     \<and> 0 < levenshtein toLowerCase token brand
                     \<and> levenshtein toLowerCase token brand \<le> max 1 (length brand div 5))
             (List.product
                (split_tokens []
                   (toLowerCase (sender (?T ! 0)) @ '' '' @ toLowerCase (subject (?T ! 0))))
                knownBrands))"
    by blast
  then have "map indicators
        (filter (\<lambda>f. index f = 0 \<and> tag_typo \<in> set (indicators f))
           (findings (analyzeInboxLocally ?T)))
      = [[tag_typo, ''similar-to-paypal'']]"
    using r by (rule trans)
  with l d show ?thesis by blast
qed

section \<open>Normalisation and fallback\<close>

subsection \<open>The response normaliser\<close>

text \<open>
  C8. \<open>parseAIResponse\<close> never throws. When the block it extracts (or, without a block, the
  whole text) does not parse, it returns the object with \<open>error: true\<close>, the fixed message
  and the original text as \<open>raw\<close>; when it parses, it returns the parsed value. In the inbox
  scan, once the threads have arrived, no error reaches the outer \<open>catch\<close>.
\<close>

theorem parseAIResponse_never_throws:
  "(\<exists>v. parseAIResponse J r = Inr v)
   \<and> (\<forall>e. parseAIResponse J r \<noteq> Inl e)
   \<and> parse_attempt J r = (case json_block r of Some m \<Rightarrow> J m | None \<Rightarrow> J r)
   \<and> (\<forall>e. parse_attempt J r = Inl e \<longrightarrow> parseAIResponse J r = Inr (parse_failure r))
   \<and> (\<forall>v. parse_attempt J r = Inr v \<longrightarrow> parseAIResponse J r = Inr v)
   \<and> js_get (parse_failure r) ''error'' = Some (JBool True)
   \<and> js_get (parse_failure r) ''message'' = Some (JStr ''Could not parse AI response'')
   \<and> js_get (parse_failure r) ''raw'' = Some (JStr r)
   \<and> (\<forall>t ths. tab env = Some t \<and> inbox env = Resolves ths
        \<longrightarrow> (\<forall>m. scanInboxThreats J F env \<noteq> NeutralResult (''Inbox scan failed: '' @ m)))"
proof -
  have scan: "scanInboxThreats J F env \<noteq> NeutralResult (''Inbox scan failed: '' @ m)"
    if "tab env = Some t" "inbox env = Resolves ths" for t ths m
  proof -
    have pa: "\<exists>v. parseAIResponse J s = Inr v" for s
      by (cases "parse_attempt J s") (simp_all add: parseAIResponse_def)
    have "\<exists>v. (case (case reply env of Rejects aiErr \<Rightarrow> JNull | Resolves v \<Rightarrow> v) of
          JStr s \<Rightarrow> if trim s \<noteq> [] then parseAIResponse J s else Inr JNull
        | _ \<Rightarrow> Inr JNull) = Inr v"
      using pa by (cases "case reply env of Rejects aiErr \<Rightarrow> JNull | Resolves v \<Rightarrow> v") simp_all
    then obtain v where "(case (case reply env of Rejects aiErr \<Rightarrow> JNull | Resolves v \<Rightarrow> v) of
          JStr s \<Rightarrow> if trim s \<noteq> [] then parseAIResponse J s else Inr JNull
        | _ \<Rightarrow> Inr JNull) = Inr v" ..
    with that show ?thesis
      by (auto simp: scanInboxThreats_def Let_def remote_result_def)
  qed
  have "\<exists>v. parseAIResponse J r = Inr v" "\<forall>e. parseAIResponse J r \<noteq> Inl e"
    by (cases "parse_attempt J r"; simp add: parseAIResponse_def)+
  moreover note scan
  moreover have "parse_attempt J r = (case json_block r of Some m \<Rightarrow> J m | None \<Rightarrow> J r)"
    by (simp add: parse_attempt_def)
  moreover have "\<forall>e. parse_attempt J r = Inl e \<longrightarrow> parseAIResponse J r = Inr (parse_failure r)"
    "\<forall>v. parse_attempt J r = Inr v \<longrightarrow> parseAIResponse J r = Inr v"
    by (simp_all add: parseAIResponse_def)
  moreover have "js_get (parse_failure r) ''error'' = Some (JBool True)"
    "js_get (parse_failure r) ''message'' = Some (JStr ''Could not parse AI response'')"
    "js_get (parse_failure r) ''raw'' = Some (JStr r)"
    by (simp_all add: parse_failure_def)
  ultimately show ?thesis by blast
qed

theorem parseAIResponse_never_throws_witness:
  "parse_attempt json_parse ''I cannot tell.'' = Inl SyntaxError
   \<and> parseAIResponse json_parse ''I cannot tell.'' = Inr (parse_failure ''I cannot tell.'')
   \<and> parse_attempt json_parse (''Result: '' @ danger_block)
       = Inr (JObj [(''threat_level'', JStr ''danger'')])
   \<and> parseAIResponse json_parse (''Result: '' @ danger_block)
       = Inr (JObj [(''threat_level'', JStr ''danger'')])
   \<and> scanInboxThreats json_parse id
        \<lparr>tab = Some 1, inbox = Resolves [thread_of ''alerts@account-check.tk'' ''hi''],
         reply = Resolves (JStr ''I cannot tell.'')\<rparr>
       \<noteq> NeutralResult (''Inbox scan failed: '' @ ''SyntaxError'')"
proof -
  let ?env = "\<lparr>tab = Some 1, inbox = Resolves [thread_of ''alerts@account-check.tk'' ''hi''],
         reply = Resolves (JStr ''I cannot tell.'')\<rparr>"
  have a: "parse_attempt json_parse ''I cannot tell.'' = Inl SyntaxError"
    by code_simp
  have b: "parse_attempt json_parse (''Result: '' @ danger_block)
       = Inr (JObj [(''threat_level'', JStr ''danger'')])"
    by code_simp
  have e: "tab ?env = Some 1 \<and> inbox ?env = Resolves [thread_of ''alerts@account-check.tk'' ''hi'']"
    by simp
  from parseAIResponse_never_throws [of json_parse "''I cannot tell.''" ?env id] a
  have c: "parseAIResponse json_parse ''I cannot tell.'' = Inr (parse_failure ''I cannot tell.'')"
    by blast
  from parseAIResponse_never_throws [of json_parse "''Result: '' @ danger_block" ?env id] b
  have d: "parseAIResponse json_parse (''Result: '' @ danger_block)
       = Inr (JObj [(''threat_level'', JStr ''danger'')])"
    by blast
  from parseAIResponse_never_throws [of json_parse "''I cannot tell.''" ?env id] e
  have f: "scanInboxThreats json_parse id ?env
       \<noteq> NeutralResult (''Inbox scan failed: '' @ ''SyntaxError'')"
    by blast
  from a b c d f show ?thesis by blast
qed

lemma json_block_embedded:
  assumes B: "B \<noteq> []" "hd B = CHR ''{''" "last B = CHR ''}''"
    and p: "CHR ''{'' \<notin> set p" and q: "CHR ''}'' \<notin> set q"
  shows "json_block (p @ B @ q) = Some B"
proof -
  from B obtain B' where B': "B = CHR ''{'' # B'" by (cases B) auto
  from p have "dropWhile (\<lambda>c. c \<noteq> CHR ''{'') (p @ B @ q) = dropWhile (\<lambda>c. c \<noteq> CHR ''{'') (B @ q)"
    by (intro dropWhile_append2) auto
  also have "\<dots> = B @ q" by (simp add: B')
  finally have t: "dropWhile (\<lambda>c. c \<noteq> CHR ''{'') (p @ B @ q) = B @ q" .
  from B have mem: "CHR ''}'' \<in> set (B @ q)"
    using last_in_set [of B] by auto
  obtain R where R: "rev B = CHR ''}'' # R"
    using B by (cases "rev B") (auto simp: last_rev [symmetric] hd_rev)
  from q have "dropWhile (\<lambda>c. c \<noteq> CHR ''}'') (rev q @ rev B) = dropWhile (\<lambda>c. c \<noteq> CHR ''}'') (rev B)"
    by (intro dropWhile_append2) auto
  also have "\<dots> = rev B" by (simp add: R)
  finally have "rev (dropWhile (\<lambda>c. c \<noteq> CHR ''}'') (rev (B @ q))) = B" by simp
  with t mem show ?thesis by (simp add: json_block_def Let_def)
qed

text \<open>
  C9, as stated, fails: prose with a brace after the block changes what is extracted. The
  block \<open>{"threat_level":"danger"}\<close> alone parses; followed by \<open>(see {docs})\<close> the
  extraction runs to the last closing brace and the result is the error object.
\<close>

theorem brace_in_prose_breaks_extraction:
  "json_parse danger_block = Inr (JObj [(''threat_level'', JStr ''danger'')])
   \<and> parseAIResponse json_parse danger_block = Inr (JObj [(''threat_level'', JStr ''danger'')])
   \<and> json_block (''Here: '' @ danger_block @ '' (see {docs})'') = Some (danger_block @ '' (see {docs}'')
   \<and> parseAIResponse json_parse (''Here: '' @ danger_block @ '' (see {docs})'')
       = Inr (parse_failure (''Here: '' @ danger_block @ '' (see {docs})''))"
  by code_simp

text \<open>
  C9, amended. The normaliser extracts the text from the first opening brace to the last
  closing brace. For a block that starts with an opening brace and ends with a closing
  brace, a prefix without an opening brace and a suffix without a closing brace, the text
  extracted from prefix, block and suffix is the block, and when the block parses the result
  is the same value as for the block alone.
\<close>

theorem extraction_ignores_brace_free_prose:
  assumes "B \<noteq> []" "hd B = CHR ''{''" "last B = CHR ''}''"
    and "CHR ''{'' \<notin> set p" and "CHR ''}'' \<notin> set q"
  shows "json_block (p @ B @ q) = Some B
     \<and> json_block B = Some B
     \<and> (\<forall>v. J B = Inr v \<longrightarrow> parseAIResponse J (p @ B @ q) = Inr v \<and> parseAIResponse J B = Inr v)"
proof -
  have a: "json_block (p @ B @ q) = Some B"
    using assms by (rule json_block_embedded)
  have "json_block ([] @ B @ []) = Some B"
    using assms(1-3) by (rule json_block_embedded) simp_all
  then have b: "json_block B = Some B" by simp
  from a b show ?thesis
    by (simp add: parseAIResponse_def parse_attempt_def)
qed

theorem extraction_ignores_brace_free_prose_witness:
  "danger_block \<noteq> [] \<and> hd danger_block = CHR ''{'' \<and> last danger_block = CHR ''}''
   \<and> CHR ''{'' \<notin> set ''Here is the verdict: '' \<and> CHR ''}'' \<notin> set '' Stay safe.''
   \<and> json_parse danger_block = Inr (JObj [(''threat_level'', JStr ''danger'')])
   \<and> parseAIResponse json_parse (''Here is the verdict: '' @ danger_block @ '' Stay safe.'')
       = Inr (JObj [(''threat_level'', JStr ''danger'')])"
proof -
  have h: "danger_block \<noteq> []" "hd danger_block = CHR ''{''" "last danger_block = CHR ''}''"
    "CHR ''{'' \<notin> set ''Here is the verdict: ''" "CHR ''}'' \<notin> set '' Stay safe.''"
    by code_simp+
  have j: "json_parse danger_block = Inr (JObj [(''threat_level'', JStr ''danger'')])"
    by code_simp
  from extraction_ignores_brace_free_prose [OF h, of json_parse] j h show ?thesis by blast
qed

subsection \<open>The fallback of the inbox scan\<close>

text \<open>
  C1, as stated, fails for the empty batch: the scan stops before the remote call and
  answers neutral, which is not the verdict of the local analyzer on no items.
\<close>

theorem empty_inbox_is_neutral:
  "scanInboxThreats json_parse id \<lparr>tab = Some 1, inbox = Resolves [], reply = Rejects ''offline''\<rparr>
     = NeutralResult ''No recent threads found to analyze''
   \<and> scanInboxThreats json_parse id \<lparr>tab = Some 1, inbox = Resolves [], reply = Rejects ''offline''\<rparr>
     \<noteq> LocalResult (analyzeInboxLocally (id []))"
  by (simp add: scanInboxThreats_def)

text \<open>
  C1, amended. For a tab that was found and a batch of threads that is not empty: when
  \<open>sendPrompt\<close> rejects, or resolves to a text that fails normalisation, the inbox threat
  scan answers with exactly the verdict of the local thread analyzer on the filtered
  threads.
\<close>

theorem inbox_scan_fallback:
  assumes "tab env = Some t" and "inbox env = Resolves ths" and "ths \<noteq> []"
    and "reply env = Rejects err \<or> (\<exists>s. reply env = Resolves (JStr s) \<and> isl (parse_attempt J s))"
  shows "scanInboxThreats J F env = LocalResult (analyzeInboxLocally (F ths))"
  using assms(4)
proof
  assume "reply env = Rejects err"
  with assms(1-3) show ?thesis by (simp add: scanInboxThreats_def)
next
  assume "\<exists>s. reply env = Resolves (JStr s) \<and> isl (parse_attempt J s)"
  then obtain s where s: "reply env = Resolves (JStr s)" and f: "isl (parse_attempt J s)"
    by blast
  from f obtain e where "parse_attempt J s = Inl e" by (cases "parse_attempt J s") auto
  then have "parseAIResponse J s = Inr (parse_failure s)"
    by (simp add: parseAIResponse_def)
  with assms(1-3) s show ?thesis
    by (simp add: scanInboxThreats_def parse_failure_def)
qed

theorem inbox_scan_fallback_witness:
  "scanInboxThreats json_parse id
     \<lparr>tab = Some 1, inbox = Resolves [thread_of ''alerts@account-check.tk'' ''hi''],
      reply = Rejects ''offline''\<rparr>
     = LocalResult (analyzeInboxLocally (id [thread_of ''alerts@account-check.tk'' ''hi'']))
   \<and> isl (parse_attempt json_parse ''I cannot tell.'')
   \<and> scanInboxThreats json_parse id
     \<lparr>tab = Some 1, inbox = Resolves [thread_of ''alerts@account-check.tk'' ''hi''],
      reply = Resolves (JStr ''I cannot tell.'')\<rparr>
     = LocalResult (analyzeInboxLocally (id [thread_of ''alerts@account-check.tk'' ''hi'']))"
proof -
  let ?T = "[thread_of ''alerts@account-check.tk'' ''hi'']"
  let ?e1 = "\<lparr>tab = Some 1, inbox = Resolves ?T, reply = Rejects ''offline''\<rparr>"
  let ?e2 = "\<lparr>tab = Some 1, inbox = Resolves ?T, reply = Resolves (JStr ''I cannot tell.'')\<rparr>"
  have p: "isl (parse_attempt json_parse ''I cannot tell.'')"
    by code_simp
  have a: "scanInboxThreats json_parse id ?e1 = LocalResult (analyzeInboxLocally (id ?T))"
    by (rule inbox_scan_fallback [where t = 1 and err = "''offline''"]) simp_all
  have b: "scanInboxThreats json_parse id ?e2 = LocalResult (analyzeInboxLocally (id ?T))"
    by (rule inbox_scan_fallback [where t = 1]) (simp_all add: p)
  from a p b show ?thesis by blast
qed

end
